theory Spec2Isabelle
  imports Main
begin

unbundle bit_operations_syntax

section \<open>Number-theoretic primitives of \<^verbatim>\<open>Math_Library/prime.py\<close>\<close>

text \<open>
  The module works on Python's unbounded integers, modelled as \<^typ>\<open>int\<close>; array
  indices are \<^typ>\<open>nat\<close>.  Exceptions of the Python run time are values of the
  type \<open>error\<close>; a loop that may run forever is a \<^theory_text>\<open>partial_function\<close>
  in the option monad, where \<open>None\<close> means that the call does not return.
\<close>

datatype error = ValueError | IndexError | ZeroDivisionError

subsection \<open>The arithmetic provider (\<^verbatim>\<open>base\<close>)\<close>

text \<open>
  Modelled from the spec: \<^verbatim>\<open>base.isqrt\<close> and \<^verbatim>\<open>base.sqrt\<close> are imported from a module
  that is not part of the sources.  The spec lists the provider's
  "integer square root (floor)"; \<open>isqrt\<close> is that function, and \<^verbatim>\<open>int(sqrt(n))\<close> is read
  as the same floor.
\<close>

primrec isqrt :: "nat \<Rightarrow> nat" where
  "isqrt 0 = 0"
| "isqrt (Suc n) = (let r = isqrt n in if (r + 1) * (r + 1) \<le> Suc n then r + 1 else r)"

text \<open>
  Modelled from the spec: \<^verbatim>\<open>base.cprod\<close> is the product of a sequence
  (the spec's divisor enumerator emits the product of the prime powers).
\<close>

definition cprod :: "int list \<Rightarrow> int" where
  "cprod xs = foldr (*) xs 1"

text \<open>
  Python's three-argument \<^verbatim>\<open>pow(a, d, p)\<close> for \<open>d \<ge> 0\<close> and \<open>p > 0\<close>.
\<close>

definition pow_mod :: "int \<Rightarrow> nat \<Rightarrow> int \<Rightarrow> int" where
  "pow_mod a d p = a ^ d mod p"

subsection \<open>The random source\<close>

text \<open>
  \<^verbatim>\<open>random\<close> is modelled by an arbitrary sequence of raw draws and the position of
  the next one.  \<open>randint a b\<close> maps a raw draw into the closed range \<open>[a, b]\<close>, so
  that quantifying over all sequences covers every outcome of the generator.
  The module only calls it with \<open>a \<le> b\<close>.
\<close>

type_synonym rand = "(nat \<Rightarrow> nat) \<times> nat"

definition randint :: "int \<Rightarrow> int \<Rightarrow> rand \<Rightarrow> int \<times> rand" where
  "randint a b rs = (a + int (fst rs (snd rs)) mod (b - a + 1), (fst rs, Suc (snd rs)))"

definition zero_draws :: "nat \<Rightarrow> nat" where
  "zero_draws i = 0"

subsection \<open>\<^verbatim>\<open>_primes_list\<close>\<close>

text \<open>\<^verbatim>\<open>sieve[start::step] = False\<close>: a slice assignment past the end changes nothing.\<close>

definition slice_clear :: "nat \<Rightarrow> nat \<Rightarrow> bool list \<Rightarrow> bool list" where
  "slice_clear start step sv =
     map (\<lambda>j. sv ! j \<and> \<not> (start \<le> j \<and> (j - start) mod step = 0)) [0..<length sv]"

text \<open>The body of the loop, for an index \<open>i\<close> inside the array.\<close>

definition sieve_step :: "nat \<Rightarrow> bool list \<Rightarrow> bool list" where
  "sieve_step i sv =
     (if sv ! i then
        (let k = (3 * i + 1) OR 1;
             sv1 = slice_clear (k * k div 3) (2 * k) sv
         in slice_clear (k * (k - 2 * (i AND 1) + 4) div 3) (2 * k) sv1)
      else sv)"

fun sieve_loop :: "nat list \<Rightarrow> bool list \<Rightarrow> error + bool list" where
  "sieve_loop [] sv = Inr sv"
| "sieve_loop (i # is) sv =
     (if i < length sv then sieve_loop is (sieve_step i sv) else Inl IndexError)"

text \<open>\<^verbatim>\<open>np.nonzero(sieve)[0]\<close>: the indices of the entries that are set.\<close>

definition nonzero :: "bool list \<Rightarrow> nat list" where
  "nonzero sv = filter (\<lambda>j. sv ! j) [0..<length sv]"

definition primes_list :: "int \<Rightarrow> error + int list" where
  "primes_list n =
     (let size = n div 3 + (if n mod 6 = 2 then 1 else 0) in
      if size < 0 then Inl ValueError
      else case sieve_loop [1..<isqrt (nat n) div 3 + 1] (replicate (nat size) True) of
             Inl e \<Rightarrow> Inl e
           | Inr sv \<Rightarrow> Inr (2 # 3 # map (\<lambda>j. int ((3 * j + 1) OR 1)) (tl (nonzero sv))))"

subsection \<open>Miller-Rabin: \<^verbatim>\<open>_mr_decompose\<close>, \<^verbatim>\<open>_mr_isWitness\<close>, \<^verbatim>\<open>_is_prime\<close>\<close>

partial_function (option) mr_decompose_loop :: "int \<Rightarrow> nat \<Rightarrow> (nat \<times> int) option" where
  "mr_decompose_loop n exponentOfTwo =
     (if n mod 2 = 0 then mr_decompose_loop (n div 2) (exponentOfTwo + 1)
      else Some (exponentOfTwo, n))"

definition mr_decompose :: "int \<Rightarrow> (nat \<times> int) option" where
  "mr_decompose n = mr_decompose_loop n 0"

fun mr_squarings :: "nat \<Rightarrow> int \<Rightarrow> int \<Rightarrow> bool" where
  "mr_squarings 0 w p = True"
| "mr_squarings (Suc k) w p =
     (let w' = pow_mod w 2 p in if w' = p - 1 then False else mr_squarings k w' p)"

definition mr_isWitness :: "int \<Rightarrow> int \<Rightarrow> nat \<Rightarrow> int \<Rightarrow> bool" where
  "mr_isWitness possibleWitness p exponent remainder =
     (let w = pow_mod possibleWitness (nat remainder) p in
      if w = 1 \<or> w = p - 1 then False else mr_squarings exponent w p)"

fun mr_trials :: "nat \<Rightarrow> int \<Rightarrow> nat \<Rightarrow> int \<Rightarrow> rand \<Rightarrow> bool \<times> rand" where
  "mr_trials 0 p exponent remainder rs = (True, rs)"
| "mr_trials (Suc k) p exponent remainder rs =
     (let (possibleWitness, rs') = randint 2 (p - 2) rs in
      if mr_isWitness possibleWitness p exponent remainder then (False, rs')
      else mr_trials k p exponent remainder rs')"

definition is_prime :: "int \<Rightarrow> int \<Rightarrow> rand \<Rightarrow> (bool \<times> rand) option" where
  "is_prime p accuracy rs =
     (if p < 2 then Some (False, rs)
      else if p = 2 \<or> p = 3 then Some (True, rs)
      else case mr_decompose (p - 1) of
             None \<Rightarrow> None
           | Some (exponent, remainder) \<Rightarrow>
               Some (mr_trials (nat accuracy) p exponent remainder rs))"

subsection \<open>\<^verbatim>\<open>_mobius_list\<close>\<close>

text \<open>
  \<^verbatim>\<open>mlist[::p] *= -p\<close> and \<^verbatim>\<open>mlist[::p*p] = 0\<close>: a slice from index 0 with stride \<open>p\<close>
  holds the indices that \<open>p\<close> divides.  The entries are 64-bit in the source; every
  entry stays bounded in absolute value by its index (by 1 at index 0), so no entry of a
  table that fits in memory wraps, and the entries are modelled as \<^typ>\<open>int\<close>.
\<close>

definition stride_scale :: "int \<Rightarrow> int list \<Rightarrow> int list" where
  "stride_scale p mlist =
     map (\<lambda>j. if int j mod p = 0 then mlist ! j * (- p) else mlist ! j) [0..<length mlist]"

definition stride_zero :: "int \<Rightarrow> int list \<Rightarrow> int list" where
  "stride_zero s mlist =
     map (\<lambda>j. if int j mod s = 0 then 0 else mlist ! j) [0..<length mlist]"

fun mobius_sieve :: "int list \<Rightarrow> int list \<Rightarrow> int list" where
  "mobius_sieve [] mlist = mlist"
| "mobius_sieve (p # plist) mlist =
     mobius_sieve plist (stride_zero (p * p) (stride_scale p mlist))"

text \<open>The body of the second loop, for an index \<open>i\<close> inside the table.\<close>

definition normalize_entry :: "nat \<Rightarrow> int list \<Rightarrow> int list" where
  "normalize_entry i mlist =
     (if mlist ! i \<noteq> 0 then
        (let mlist1 = (if \<bar>mlist ! i\<bar> < int i then mlist[i := mlist ! i * (- 1)] else mlist)
         in if mlist1 ! i > 0 then mlist1[i := 1] else mlist1[i := - 1])
      else mlist)"

text \<open>
  The floor square root and the table size are defined for \<open>n \<ge> 0\<close> only; a negative
  argument is a \<^verbatim>\<open>ValueError\<close>.
\<close>

definition mobius_list :: "int \<Rightarrow> error + int list" where
  "mobius_list n =
     (if n < 0 then Inl ValueError
      else case primes_list (int (isqrt (nat n)) + 1) of
             Inl e \<Rightarrow> Inl e
           | Inr plist \<Rightarrow>
               Inr (fold normalize_entry [1..<nat n + 1]
                      (mobius_sieve plist (replicate (nat n + 1) 1))))"

subsection \<open>\<^verbatim>\<open>_pollard_rho\<close>\<close>

partial_function (option) rho_loop ::
    "int \<Rightarrow> int \<Rightarrow> int \<Rightarrow> int \<Rightarrow> int \<Rightarrow> (error + int) option" where
  "rho_loop n c x y d =
     (if d = 1 \<and> d \<noteq> n then
        (if n = 0 then Some (Inl ZeroDivisionError)
         else let x1 = (x * x + c) mod n;
                  y1 = (y * y + c) mod n;
                  y2 = (y1 * y1 + c) mod n
              in rho_loop n c x1 y2 (gcd (y2 - x1) n))
      else Some (Inr d))"

definition pollard_rho :: "int \<Rightarrow> bool \<Rightarrow> rand \<Rightarrow> ((error + int) \<times> rand) option" where
  "pollard_rho n rnd rs =
     (let (x, c, rs') =
            (if \<not> rnd then (1, 1, rs)
             else let (x, rs1) = randint 2 999999 rs;
                      (c, rs2) = randint 2 999999 rs1
                  in (x, c, rs2))
      in map_option (\<lambda>r. (r, rs')) (rho_loop n c x x 1))"

subsection \<open>\<^verbatim>\<open>prime_divisor_decomposition\<close>\<close>

text \<open>
  The inner loop \<^verbatim>\<open>while n % p == 0: n //= p; c += 1\<close>, written three times in the
  source.  It does not return for \<open>n = 0\<close>.
\<close>

partial_function (option) divide_out :: "int \<Rightarrow> int \<Rightarrow> nat \<Rightarrow> (int \<times> nat) option" where
  "divide_out n p c = (if n mod p = 0 then divide_out (n div p) p (c + 1) else Some (n, c))"

text \<open>The module-level table \<^verbatim>\<open>P10K = primes_list(10000)\<close>; \<^verbatim>\<open>P10Kset\<close> is its set.\<close>

definition P10K :: "int list" where
  "P10K = (case primes_list 10000 of Inr ps \<Rightarrow> ps | Inl e \<Rightarrow> [])"

text \<open>
  \<^verbatim>\<open>dlist\<close> and \<^verbatim>\<open>clist\<close> are always appended to together and only read through
  \<^verbatim>\<open>zip(dlist, clist)\<close>; the model keeps the list of pairs.  The loop over the table
  either returns (\<open>Inl\<close>) or falls through with the cofactor (\<open>Inr\<close>).
\<close>

fun trial_loop :: "int list \<Rightarrow> int \<Rightarrow> (int \<times> nat) list
    \<Rightarrow> ((int \<times> nat) list + int \<times> (int \<times> nat) list) option" where
  "trial_loop [] n fs = Some (Inr (n, fs))"
| "trial_loop (p # ps) n fs =
     (case divide_out n p 0 of
        None \<Rightarrow> None
      | Some (n', c) \<Rightarrow>
          (let fs' = (if c \<noteq> 0 then fs @ [(p, c)] else fs) in
           if n' = 1 then Some (Inl fs')
           else if n' \<in> set P10K then Some (Inl (fs' @ [(n', 1)]))
           else trial_loop ps n' fs'))"

partial_function (option) rho_phase ::
    "int \<Rightarrow> bool \<Rightarrow> (int \<times> nat) list \<Rightarrow> rand \<Rightarrow> (error + (int \<times> nat) list) option" where
  "rho_phase n rnd fs rs =
     (if n = 1 then Some (Inr fs)
      else case is_prime n 100 rs of
             None \<Rightarrow> None
           | Some (b, rs1) \<Rightarrow>
               if b then Some (Inr (fs @ [(n, 1)]))
               else (case pollard_rho n rnd rs1 of
                       None \<Rightarrow> None
                     | Some (Inl e, rs2) \<Rightarrow> Some (Inl e)
                     | Some (Inr p, rs2) \<Rightarrow>
                         (case divide_out n p 0 of
                            None \<Rightarrow> None
                          | Some (n', c) \<Rightarrow> rho_phase n' rnd (fs @ [(p, c)]) rs2)))"

definition prime_divisor_decomposition ::
    "int \<Rightarrow> bool \<Rightarrow> rand \<Rightarrow> (error + (int \<times> nat) list) option" where
  "prime_divisor_decomposition n rnd rs =
     (case divide_out n 2 0 of
        None \<Rightarrow> None
      | Some (n1, c) \<Rightarrow>
          (case trial_loop P10K n1 (if c \<noteq> 0 then [(2, c)] else []) of
             None \<Rightarrow> None
           | Some (Inl fs) \<Rightarrow> Some (Inr fs)
           | Some (Inr (n2, fs)) \<Rightarrow> rho_phase n2 rnd fs rs))"

subsection \<open>\<^verbatim>\<open>all_divisors\<close>\<close>

text \<open>
  The inner \<^verbatim>\<open>while 1\<close> of the odometer: \<open>Inr (Some clist)\<close> is the \<^verbatim>\<open>break\<close>,
  \<open>Inr None\<close> the carry out of the last counter, where the function returns.
\<close>

function carry :: "(int \<times> nat) list \<Rightarrow> nat list \<Rightarrow> nat \<Rightarrow> error + nat list option" where
  "carry primefactors clist k =
     (if k < length clist \<and> k < length primefactors then
        (let clist1 = clist[k := clist ! k + 1] in
         if clist1 ! k \<le> snd (primefactors ! k) then Inr (Some clist1)
         else (let clist2 = clist1[k := 0] in
               if k + 1 \<ge> length primefactors then Inr None
               else carry primefactors clist2 (k + 1)))
      else Inl IndexError)"
  by pat_completeness auto
termination
  by (relation "measure (\<lambda>(primefactors, clist, k). length primefactors - k)") auto

partial_function (option) enumerate_loop ::
    "(int \<times> nat) list \<Rightarrow> nat list \<Rightarrow> int list \<Rightarrow> (error + int list) option" where
  "enumerate_loop primefactors clist output =
     (let output' = output @
            [cprod (map (\<lambda>i. fst (primefactors ! i) ^ (clist ! i)) [0..<length primefactors])]
      in case carry primefactors clist 0 of
           Inl e \<Rightarrow> Some (Inl e)
         | Inr None \<Rightarrow> Some (Inr (sort output'))
         | Inr (Some clist') \<Rightarrow> enumerate_loop primefactors clist' output')"

definition all_divisors :: "int \<Rightarrow> bool \<Rightarrow> rand \<Rightarrow> (error + int list) option" where
  "all_divisors n rnd rs =
     (if n = 1 then Some (Inr [1])
      else case prime_divisor_decomposition n rnd rs of
             None \<Rightarrow> None
           | Some (Inl e) \<Rightarrow> Some (Inl e)
           | Some (Inr primefactors) \<Rightarrow>
               enumerate_loop primefactors (replicate (length primefactors) 0) [])"

subsection \<open>Auxiliary notions for the proofs\<close>

text \<open>The iteration function \<^verbatim>\<open>f(x, c) % n\<close> of Pollard's rho.\<close>

definition rho_f :: "int \<Rightarrow> int \<Rightarrow> int \<Rightarrow> int" where
  "rho_f n c x = (x * x + c) mod n"

text \<open>The product that a list of (factor, exponent) pairs stands for.\<close>

definition factors_prod :: "(int \<times> nat) list \<Rightarrow> int" where
  "factors_prod fs = prod_list (map (\<lambda>(p, e). p ^ e) fs)"

text \<open>Primality, as the spec means it: a number above 1 with no divisor but 1 and itself.\<close>

definition prime_nat :: "nat \<Rightarrow> bool" where
  "prime_nat p \<longleftrightarrow> 1 < p \<and> (\<forall>d. d dvd p \<longrightarrow> d = 1 \<or> d = p)"

definition prime_int :: "int \<Rightarrow> bool" where
  "prime_int p \<longleftrightarrow> 1 < p \<and> prime_nat (nat p)"

text \<open>
  The number that index \<open>i\<close> of the sieve array stands for, and the indices that
  the two slice assignments of index \<open>i\<close> clear.
\<close>

definition wheel :: "nat \<Rightarrow> nat" where
  "wheel i = (3 * i + 1) OR 1"

definition marks :: "nat \<Rightarrow> nat \<Rightarrow> bool" where
  "marks i j \<longleftrightarrow>
     (wheel i * wheel i div 3 \<le> j \<and> (j - wheel i * wheel i div 3) mod (2 * wheel i) = 0)
   \<or> (wheel i * (wheel i - 2 * (i AND 1) + 4) div 3 \<le> j
       \<and> (j - wheel i * (wheel i - 2 * (i AND 1) + 4) div 3) mod (2 * wheel i) = 0)"

text \<open>
  The state of the sieve array once the indices \<open>1, \<dots>, t\<close> have been processed: an
  entry is still set iff its number has no prime divisor among the processed ones whose
  square does not exceed it.
\<close>

definition sieved :: "nat \<Rightarrow> bool list \<Rightarrow> bool" where
  "sieved t sv \<longleftrightarrow>
     (\<forall>j<length sv. sv ! j \<longleftrightarrow>
        \<not> (\<exists>i. 1 \<le> i \<and> i \<le> t \<and> prime_nat (wheel i) \<and> wheel i dvd wheel j
                \<and> wheel i * wheel i \<le> wheel j))"

text \<open>
  The Moebius function, as the spec words it: 1 at 1, 0 where a squared prime divides,
  and otherwise \<open>(-1) ^ r\<close> for \<open>r\<close> distinct prime factors.
\<close>

definition moebius :: "nat \<Rightarrow> int" where
  "moebius k =
     (if k = 1 then 1
      else if \<exists>p. prime_nat p \<and> p * p dvd k then 0
      else (- 1) ^ card {p. prime_nat p \<and> p dvd k})"

text \<open>What the second loop of \<^verbatim>\<open>_mobius_list\<close> makes of the entry \<open>v\<close> at index \<open>i\<close>.\<close>

definition norm_value :: "nat \<Rightarrow> int \<Rightarrow> int" where
  "norm_value i v =
     (if v \<noteq> 0 then (if (if \<bar>v\<bar> < int i then - v else v) > 0 then 1 else - 1) else 0)"

section \<open>Properties\<close>

lemma nonzero_replicate_Suc0: "tl (nonzero (replicate (Suc 0) True)) = []"
  by (simp add: nonzero_def)

lemma isqrt_small: "n \<le> 5 \<Longrightarrow> isqrt n div 3 = 0"
proof -
  assume "n \<le> 5"
  then consider "n = 0" | "n = 1" | "n = 2" | "n = 3" | "n = 4" | "n = 5" by linarith
  then show ?thesis
  proof cases
    case 1 then show ?thesis by simp
  next
    case 2 have "isqrt 1 div 3 = 0" by code_simp
    with 2 show ?thesis by simp
  next
    case 3 have "isqrt 2 div 3 = 0" by code_simp
    with 3 show ?thesis by simp
  next
    case 4 have "isqrt 3 div 3 = 0" by code_simp
    with 4 show ?thesis by simp
  next
    case 5 have "isqrt 4 div 3 = 0" by code_simp
    with 5 show ?thesis by simp
  next
    case 6 have "isqrt 5 div 3 = 0" by code_simp
    with 6 show ?thesis by simp
  qed
qed

text \<open>
  C10: for every bound \<open>0 \<le> n \<le> 5\<close>, below the documented minimum of 6, the sieve
  raises no error and returns exactly \<open>[2, 3]\<close>; the result holds primes that are
  not below \<open>n\<close>.
\<close>

theorem primes_list_below_minimum:
  assumes "0 \<le> n" and "n \<le> 5"
  shows "primes_list n = Inr [2, 3]"
proof -
  have iq: "[1..<isqrt (nat n) div 3 + 1] = []"
    using assms by (simp add: isqrt_small)
  from assms consider "n = 0" | "n = 1" | "n = 2" | "n = 3" | "n = 4" | "n = 5" by linarith
  then show ?thesis
    unfolding primes_list_def iq
    by cases (simp_all add: nonzero_def)
qed

theorem primes_list_below_minimum_witness:
  "(0::int) \<le> 4 \<and> (4::int) \<le> 5 \<and> primes_list 4 = Inr [2, 3]"
  using primes_list_below_minimum [of 4] by simp

text \<open>
  C6: the routine is documented to return a non-trivial factor, neither one nor \<open>n\<close>.
  On the composite 4 with the fixed seed the cycle detection closes with a gcd equal to
  \<open>n\<close>; the loop stops there and 4 itself is returned, with no new seed drawn.
\<close>

theorem pollard_rho_returns_n: "pollard_rho 4 False rs = Some (Inr 4, rs)"
  by (simp add: pollard_rho_def rho_loop.simps Let_def)

subsection \<open>The division loops\<close>

lemma divide_out_partial:
  assumes "divide_out n p c = Some r"
  shows "c \<le> snd r \<and> n = fst r * p ^ (snd r - c) \<and> fst r mod p \<noteq> 0"
proof (rule divide_out.raw_induct[where P="\<lambda>n p c r. c \<le> snd r \<and> n = fst r * p ^ (snd r - c) \<and> fst r mod p \<noteq> 0", OF _ assms])
  fix f :: "int \<Rightarrow> int \<Rightarrow> nat \<Rightarrow> (int \<times> nat) option" and n p :: int and c :: nat and r
  assume IH: "\<And>n p c r. f n p c = Some r \<Longrightarrow>
      c \<le> snd r \<and> n = fst r * p ^ (snd r - c) \<and> fst r mod p \<noteq> 0"
    and eq: "(if n mod p = 0 then f (n div p) p (c + 1) else Some (n, c)) = Some r"
  show "c \<le> snd r \<and> n = fst r * p ^ (snd r - c) \<and> fst r mod p \<noteq> 0"
  proof (cases "n mod p = 0")
    case True
    with eq have "f (n div p) p (c + 1) = Some r" by simp
    from IH[OF this] have h: "c + 1 \<le> snd r" "n div p = fst r * p ^ (snd r - (c + 1))"
      "fst r mod p \<noteq> 0"
      by auto
    have "n = (n div p) * p" using True by auto
    also have "\<dots> = fst r * p ^ (Suc (snd r - (c + 1)))" using h(2) by simp
    also have "Suc (snd r - (c + 1)) = snd r - c" using h(1) by simp
    finally show ?thesis using h by simp
  next
    case False
    with eq show ?thesis by auto
  qed
qed

lemma divide_out_total:
  assumes "2 \<le> p"
  shows "1 \<le> n \<Longrightarrow> \<exists>r. divide_out n p c = Some r"
proof (induction "nat n" arbitrary: n c rule: less_induct)
  case less
  show ?case
  proof (cases "n mod p = 0")
    case True
    then have eq: "n = (n div p) * p" by auto
    have pos: "1 \<le> n div p"
    proof (rule ccontr)
      assume "\<not> 1 \<le> n div p"
      then have "n div p \<le> 0" by simp
      then have "(n div p) * p \<le> 0" using assms by (simp add: mult_le_0_iff)
      with eq less(2) show False by simp
    qed
    have "n div p < n" using less(2) assms by (simp add: int_div_less_self)
    then have "nat (n div p) < nat n" using pos by simp
    from less(1)[OF this pos] obtain r where "divide_out (n div p) p (c + 1) = Some r" by blast
    then show ?thesis using True by (subst divide_out.simps) simp
  next
    case False
    then show ?thesis by (subst divide_out.simps) simp
  qed
qed

lemma divide_out_pos:
  assumes "1 \<le> n" "2 \<le> p"
  obtains n' c' where "divide_out n p c = Some (n', c')" "c \<le> c'" "n = n' * p ^ (c' - c)"
    "\<not> p dvd n'" "1 \<le> n'"
proof -
  from divide_out_total[OF assms(2,1)] obtain n' c' where r: "divide_out n p c = Some (n', c')"
    by (metis surj_pair)
  from divide_out_partial[OF r] have h: "c \<le> c'" "n = n' * p ^ (c' - c)" "n' mod p \<noteq> 0" by auto
  have pp: "0 < p ^ (c' - c)" using assms(2) by simp
  have "0 < n'"
  proof (rule ccontr)
    assume "\<not> 0 < n'"
    then have "n' \<le> 0" by simp
    then have "n' * p ^ (c' - c) \<le> 0" using pp by (simp add: mult_le_0_iff)
    with h(2) assms(1) show False by simp
  qed
  with r h that show ?thesis by (auto simp: dvd_eq_mod_eq_0)
qed

lemma divide_out_zero: "divide_out 0 p c = None"
proof (cases "divide_out 0 p c")
  case None then show ?thesis .
next
  case (Some r)
  have "n \<noteq> 0" if "divide_out n p c = Some r" for n
  proof (rule divide_out.raw_induct[where P="\<lambda>n p c r. n \<noteq> 0", OF _ that])
    fix f :: "int \<Rightarrow> int \<Rightarrow> nat \<Rightarrow> (int \<times> nat) option" and n p :: int and c :: nat and r
    assume IH: "\<And>n p c r. f n p c = Some r \<Longrightarrow> n \<noteq> 0"
      and eq: "(if n mod p = 0 then f (n div p) p (c + 1) else Some (n, c)) = Some r"
    show "n \<noteq> 0"
    proof
      assume "n = 0"
      with eq have "f 0 p (c + 1) = Some r" by simp
      from IH[OF this] show False by simp
    qed
  qed
  from this[OF Some] show ?thesis by simp
qed

lemma mr_decompose_loop_total:
  "1 \<le> n \<Longrightarrow> \<exists>r. mr_decompose_loop n e = Some r"
proof (induction "nat n" arbitrary: n e rule: less_induct)
  case less
  show ?case
  proof (cases "n mod 2 = 0")
    case True
    then have eq: "n = (n div 2) * 2" by auto
    have pos: "1 \<le> n div 2" using less(2) eq by linarith
    have "nat (n div 2) < nat n" using pos less(2) by linarith
    from less(1)[OF this pos] obtain r where "mr_decompose_loop (n div 2) (e + 1) = Some r" by blast
    then show ?thesis using True by (subst mr_decompose_loop.simps) simp
  next
    case False
    then show ?thesis by (subst mr_decompose_loop.simps) simp
  qed
qed

lemma mr_decompose_loop_partial:
  assumes "mr_decompose_loop n e = Some r"
  shows "e \<le> fst r \<and> n = snd r * 2 ^ (fst r - e) \<and> odd (snd r)"
proof (rule mr_decompose_loop.raw_induct[where P="\<lambda>n e r. e \<le> fst r \<and> n = snd r * 2 ^ (fst r - e) \<and> odd (snd r)", OF _ assms])
  fix f :: "int \<Rightarrow> nat \<Rightarrow> (nat \<times> int) option" and n :: int and e :: nat and r
  assume IH: "\<And>n e r. f n e = Some r \<Longrightarrow> e \<le> fst r \<and> n = snd r * 2 ^ (fst r - e) \<and> odd (snd r)"
    and eq: "(if n mod 2 = 0 then f (n div 2) (e + 1) else Some (e, n)) = Some r"
  show "e \<le> fst r \<and> n = snd r * 2 ^ (fst r - e) \<and> odd (snd r)"
  proof (cases "n mod 2 = 0")
    case True
    with eq have "f (n div 2) (e + 1) = Some r" by simp
    from IH[OF this] have h: "e + 1 \<le> fst r" "n div 2 = snd r * 2 ^ (fst r - (e + 1))" "odd (snd r)"
      by auto
    have "n = (n div 2) * 2" using True by auto
    also have "\<dots> = snd r * 2 ^ (Suc (fst r - (e + 1)))" using h(2) by simp
    also have "Suc (fst r - (e + 1)) = fst r - e" using h(1) by simp
    finally show ?thesis using h by simp
  next
    case False
    with eq show ?thesis by (auto simp: odd_iff_mod_2_eq_one)
  qed
qed

lemma is_prime_total: "\<exists>b rs'. is_prime p accuracy rs = Some (b, rs')"
proof (cases "p < 2 \<or> p = 2 \<or> p = 3")
  case True
  then show ?thesis by (auto simp: is_prime_def)
next
  case False
  then have "1 \<le> p - 1" by simp
  from mr_decompose_loop_total[OF this] obtain e d where "mr_decompose (p - 1) = Some (e, d)"
    unfolding mr_decompose_def by (metis surj_pair)
  with False show ?thesis
    by (simp add: is_prime_def) (metis surj_pair)
qed

lemma rho_loop_stop: "d \<noteq> 1 \<Longrightarrow> rho_loop n c x y d = Some (Inr d)"
  by (subst rho_loop.simps) simp

lemma rho_loop_step:
  "n \<noteq> 0 \<Longrightarrow> n \<noteq> 1 \<Longrightarrow>
   rho_loop n c x y 1 =
     rho_loop n c (rho_f n c x) (rho_f n c (rho_f n c y))
       (gcd (rho_f n c (rho_f n c y) - rho_f n c x) n)"
  by (subst rho_loop.simps) (simp add: rho_f_def Let_def)

lemma rho_loop_collision:
  assumes n: "2 \<le> n"
  shows "1 \<le> m \<Longrightarrow> (rho_f n c ^^ m) x = ((rho_f n c \<circ> rho_f n c) ^^ m) y \<Longrightarrow>
    \<exists>d. rho_loop n c x y 1 = Some (Inr d) \<and> d dvd n \<and> 2 \<le> d"
proof (induction m arbitrary: x y)
  case 0
  then show ?case by simp
next
  case (Suc m)
  let ?x = "rho_f n c x" and ?y = "rho_f n c (rho_f n c y)"
  let ?d = "gcd (?y - ?x) n"
  have step: "rho_loop n c x y 1 = rho_loop n c ?x ?y ?d"
    using n by (intro rho_loop_step) auto
  have dn: "?d dvd n" by simp
  have d0: "0 < ?d" using n by (simp add: gcd_pos_int)
  show ?case
  proof (cases "?d = 1")
    case False
    then have "rho_loop n c ?x ?y ?d = Some (Inr ?d)" by (rule rho_loop_stop)
    moreover have "2 \<le> ?d" using d0 False by linarith
    ultimately show ?thesis using step dn by auto
  next
    case True
    have "m \<noteq> 0"
    proof
      assume "m = 0"
      with Suc.prems(2) have "?x = ?y" by simp
      then have "?d = n" using n by simp
      with True n show False by simp
    qed
    then have m1: "1 \<le> m" by simp
    define g where "g = rho_f n c \<circ> rho_f n c"
    have "(rho_f n c ^^ Suc m) x = (rho_f n c ^^ m) ?x"
      by (simp only: funpow_Suc_right o_apply)
    moreover have "(g ^^ Suc m) y = (g ^^ m) (g y)"
      by (simp only: funpow_Suc_right o_apply)
    moreover have "g y = ?y" by (simp add: g_def)
    ultimately have "(rho_f n c ^^ m) ?x = ((rho_f n c \<circ> rho_f n c) ^^ m) ?y"
      using Suc.prems(2) unfolding g_def[symmetric] by simp
    from Suc.IH[OF m1 this] show ?thesis using step True by simp
  qed
qed

lemma funpow_periodic:
  fixes f :: "'a \<Rightarrow> 'a"
  assumes "(f ^^ (i + l)) x = (f ^^ i) x"
  shows "(f ^^ (i + t + q * l)) x = (f ^^ (i + t)) x"
proof (induction q)
  case 0
  then show ?case by simp
next
  case (Suc q)
  have e1: "i + t + Suc q * l = (t + q * l) + (i + l)" by simp
  have e2: "i + t + q * l = (t + q * l) + i" by simp
  have "(f ^^ (i + t + Suc q * l)) x = (f ^^ (t + q * l)) ((f ^^ (i + l)) x)"
    unfolding e1 by (simp only: funpow_add o_apply)
  also have "\<dots> = (f ^^ (t + q * l)) ((f ^^ i) x)" using assms by simp
  also have "\<dots> = (f ^^ (i + t + q * l)) x"
    unfolding e2 by (simp only: funpow_add o_apply)
  finally show ?case using Suc by simp
qed

lemma floyd_collision:
  fixes f :: "int \<Rightarrow> int"
  assumes fin: "finite S" and range: "\<And>x. f x \<in> S"
  shows "\<exists>m\<ge>1. (f ^^ m) x = (f ^^ (2 * m)) x"
proof -
  let ?a = "\<lambda>i. (f ^^ Suc i) x"
  have img: "?a ` {..card S} \<subseteq> S" using range by auto
  have "card (?a ` {..card S}) \<le> card S" using img fin by (simp add: card_mono)
  then have "card (?a ` {..card S}) < card {..card S}" by simp
  then have "\<not> inj_on ?a {..card S}" using pigeonhole by blast
  then obtain i j where ij: "i \<noteq> j" "?a i = ?a j" unfolding inj_on_def by blast
  have "\<exists>i l. 1 \<le> i \<and> 1 \<le> l \<and> (f ^^ (i + l)) x = (f ^^ i) x"
  proof (cases "i < j")
    case True
    then have "Suc i + (j - i) = Suc j" by simp
    with ij(2) True show ?thesis
      by (intro exI[of _ "Suc i"] exI[of _ "j - i"]) (simp del: funpow.simps)
  next
    case False
    with ij(1) have "j < i" by simp
    then have "Suc j + (i - j) = Suc i" by simp
    with ij(2) \<open>j < i\<close> show ?thesis
      by (intro exI[of _ "Suc j"] exI[of _ "i - j"]) (simp del: funpow.simps)
  qed
  then obtain i l where il: "1 \<le> i" "1 \<le> l" "(f ^^ (i + l)) x = (f ^^ i) x" by blast
  let ?m = "i * l"
  have "i \<le> ?m" using il by simp
  then obtain t where t: "?m = i + t" using le_Suc_ex by blast
  have "2 * ?m = i + t + i * l" using t by simp
  then have "(f ^^ (2 * ?m)) x = (f ^^ (i + t + i * l)) x" by (simp only:)
  also have "\<dots> = (f ^^ (i + t)) x" by (rule funpow_periodic[OF il(3)])
  finally have "(f ^^ ?m) x = (f ^^ (2 * ?m)) x" using t by simp
  moreover have "1 \<le> ?m" using il by simp
  ultimately show ?thesis by blast
qed

lemma rho_loop_total:
  assumes n: "2 \<le> n"
  shows "\<exists>d. rho_loop n c x x 1 = Some (Inr d) \<and> d dvd n \<and> 2 \<le> d"
proof -
  have "rho_f n c y \<in> {0..<n}" for y using n by (simp add: rho_f_def)
  from floyd_collision[of "{0..<n}" "rho_f n c", OF _ this]
  obtain m where m: "1 \<le> m" "(rho_f n c ^^ m) x = (rho_f n c ^^ (2 * m)) x" by auto
  have "(rho_f n c ^^ (2 * m)) x = ((rho_f n c \<circ> rho_f n c) ^^ m) x"
    by (simp add: funpow_mult[symmetric] del: funpow.simps) (simp add: numeral_2_eq_2)
  with m have "(rho_f n c ^^ m) x = ((rho_f n c \<circ> rho_f n c) ^^ m) x" by simp
  from rho_loop_collision[OF n m(1) this] show ?thesis .
qed

lemma pollard_rho_total:
  assumes n: "2 \<le> n"
  shows "\<exists>d rs'. pollard_rho n rnd rs = Some (Inr d, rs') \<and> d dvd n \<and> 2 \<le> d"
proof -
  obtain x c rs' where xc: "(if \<not> rnd then (1, 1, rs)
             else let (x, rs1) = randint 2 999999 rs;
                      (c, rs2) = randint 2 999999 rs1
                  in (x, c, rs2)) = (x, c, rs')"
    by (metis prod_cases3)
  from rho_loop_total[OF n, of c x] obtain d where "rho_loop n c x x 1 = Some (Inr d)" "d dvd n" "2 \<le> d"
    by blast
  then show ?thesis unfolding pollard_rho_def xc by simp
qed

subsection \<open>The table of small primes holds numbers from 2 on\<close>

lemma wheel_eq: "(3 * j + 1) OR (1::nat) = (if even j then 3 * j + 1 else 3 * j + 2)"
  using or_one_eq[of "3 * j + 1"] by simp

lemma tl_filter_upt_pos: "j \<in> set (tl (filter P [0..<n])) \<Longrightarrow> 0 < j"
proof (cases n)
  case 0
  then show "j \<in> set (tl (filter P [0..<n])) \<Longrightarrow> 0 < j" by simp
next
  case (Suc m)
  assume j: "j \<in> set (tl (filter P [0..<n]))"
  have upt: "[0..<n] = 0 # [1..<n]" using Suc by (simp add: upt_conv_Cons)
  show "0 < j"
  proof (cases "P 0")
    case True
    with j upt have "j \<in> set (filter P [1..<n])" by simp
    then show ?thesis by auto
  next
    case False
    with j upt have "j \<in> set (tl (filter P [1..<n]))" by simp
    then have "j \<in> set (filter P [1..<n])" by (metis list.sel(2) list.set_sel(2))
    then show ?thesis by auto
  qed
qed

lemma primes_list_ge2:
  assumes "primes_list n = Inr ps" and "p \<in> set ps"
  shows "2 \<le> p"
proof -
  from assms(1) obtain sv where
    ps: "ps = 2 # 3 # map (\<lambda>j. int ((3 * j + 1) OR 1)) (tl (nonzero sv))"
    by (auto simp: primes_list_def Let_def split: if_splits sum.splits)
  from assms(2) consider "p = 2" | "p = 3"
    | j where "j \<in> set (tl (nonzero sv))" "p = int ((3 * j + 1) OR 1)"
    unfolding ps by auto
  then show ?thesis
  proof cases
    case 3
    from 3(1) have "0 < j" unfolding nonzero_def by (rule tl_filter_upt_pos)
    then show ?thesis unfolding 3(2) wheel_eq by simp
  qed simp_all
qed

lemma P10K_ge2: "p \<in> set P10K \<Longrightarrow> 2 \<le> p"
  unfolding P10K_def by (cases "primes_list 10000") (auto dest: primes_list_ge2)

subsection \<open>The factorisation returns, and its product is the input\<close>

lemma factors_prod_snoc [simp]: "factors_prod (fs @ [(p, e)]) = factors_prod fs * p ^ e"
  by (simp add: factors_prod_def)

lemma factors_prod_Nil [simp]: "factors_prod [] = 1"
  by (simp add: factors_prod_def)

lemma factors_prod_single [simp]: "factors_prod [(p, e)] = p ^ e"
  by (simp add: factors_prod_def)

lemma trial_loop_total:
  assumes "\<forall>p\<in>set ps. 2 \<le> p" and "1 \<le> n"
  shows "(\<exists>fs'. trial_loop ps n fs = Some (Inl fs') \<and> factors_prod fs' = factors_prod fs * n)
       \<or> (\<exists>n2 fs'. trial_loop ps n fs = Some (Inr (n2, fs')) \<and> 1 \<le> n2
              \<and> factors_prod fs' * n2 = factors_prod fs * n)"
  using assms
proof (induction ps arbitrary: n fs)
  case Nil
  then show ?case by simp
next
  case (Cons p ps)
  from Cons.prems have p: "2 \<le> p" by simp
  from divide_out_pos[OF Cons.prems(2) p, of 0] obtain n' c where
    d: "divide_out n p 0 = Some (n', c)" and n: "n = n' * p ^ c" and n': "1 \<le> n'"
    by (metis diff_zero)
  let ?fs = "if c \<noteq> 0 then fs @ [(p, c)] else fs"
  have fp: "factors_prod ?fs = factors_prod fs * p ^ c" by simp
  have n_eq: "factors_prod fs * n = factors_prod fs * p ^ c * n'"
    by (subst n) (simp add: mult.assoc mult.commute)
  show ?case
  proof (cases "n' = 1")
    case True
    have "trial_loop (p # ps) n fs = Some (Inl ?fs)"
      by (simp add: d Let_def True)
    moreover have "factors_prod ?fs = factors_prod fs * n"
      unfolding n_eq fp True by simp
    ultimately show ?thesis by blast
  next
    case n1: False
    show ?thesis
    proof (cases "n' \<in> set P10K")
      case True
      have "trial_loop (p # ps) n fs = Some (Inl (?fs @ [(n', 1)]))"
        using n1 True by (simp add: d Let_def)
      moreover have "factors_prod (?fs @ [(n', 1)]) = factors_prod fs * n"
        unfolding n_eq factors_prod_snoc fp by simp
      ultimately show ?thesis by blast
    next
      case False
      have eq: "trial_loop (p # ps) n fs = trial_loop ps n' ?fs"
        using n1 False by (simp add: d Let_def)
      from Cons.prems have "\<forall>p\<in>set ps. 2 \<le> p" by simp
      from Cons.IH[OF this n', of ?fs] show ?thesis
        unfolding eq fp n_eq .
    qed
  qed
qed

lemma rho_phase_total:
  "1 \<le> n \<Longrightarrow>
   \<exists>fs'. rho_phase n rnd fs rs = Some (Inr fs') \<and> factors_prod fs' = factors_prod fs * n"
proof (induction "nat n" arbitrary: n fs rs rule: less_induct)
  case less
  show ?case
  proof (cases "n = 1")
    case True
    then show ?thesis by (subst rho_phase.simps) simp
  next
    case False
    with less(2) have n2: "2 \<le> n" by simp
    obtain b rs1 where ip: "is_prime n 100 rs = Some (b, rs1)"
      using is_prime_total by blast
    show ?thesis
    proof (cases b)
      case True
      with ip False show ?thesis by (subst rho_phase.simps) simp
    next
      case nb: False
      from pollard_rho_total[OF n2] obtain p rs2 where
        pr: "pollard_rho n rnd rs1 = Some (Inr p, rs2)" and pd: "p dvd n" and p2: "2 \<le> p"
        by blast
      from divide_out_pos[OF less(2) p2, of 0] obtain n' c where
        d: "divide_out n p 0 = Some (n', c)" and n: "n = n' * p ^ c"
        and nd: "\<not> p dvd n'" and n': "1 \<le> n'"
        by (metis diff_zero)
      have "c \<noteq> 0"
      proof
        assume "c = 0"
        with n have "n = n'" by simp
        with pd nd show False by simp
      qed
      then obtain c' where c': "c = Suc c'" by (cases c) auto
      have "1 \<le> p ^ c'" using p2 by simp
      then have "2 * 1 \<le> p * p ^ c'" using p2 by (intro mult_mono) auto
      then have pc: "2 \<le> p ^ c" unfolding c' by simp
      have "n' * 2 \<le> n' * p ^ c" using pc n' by (intro mult_left_mono) auto
      then have "n' < n" using n n' by linarith
      then have "nat n' < nat n" using n' by simp
      from less(1)[OF this n', of "fs @ [(p, c)]" rs2] obtain fs' where
        r: "rho_phase n' rnd (fs @ [(p, c)]) rs2 = Some (Inr fs')"
        and fp: "factors_prod fs' = factors_prod (fs @ [(p, c)]) * n'"
        by blast
      have "rho_phase n rnd fs rs = Some (Inr fs')"
        using False ip nb pr d r by (subst rho_phase.simps) simp
      moreover have "factors_prod fs' = factors_prod fs * n"
        unfolding fp factors_prod_snoc by (subst n) (simp add: mult.assoc mult.commute)
      ultimately show ?thesis by blast
    qed
  qed
qed

lemma decomposition_total:
  assumes "1 \<le> n"
  shows "\<exists>fs. prime_divisor_decomposition n rnd rs = Some (Inr fs) \<and> factors_prod fs = n"
proof -
  from divide_out_pos[OF assms, of 2 0] obtain n1 c where
    d: "divide_out n 2 0 = Some (n1, c)" and n: "n = n1 * 2 ^ c" and n1: "1 \<le> n1"
    by (metis diff_zero order_refl)
  let ?fs = "if c \<noteq> 0 then [(2, c)] else []"
  have fp: "factors_prod ?fs = 2 ^ c" by simp
  have n_eq: "factors_prod ?fs * n1 = n" unfolding fp by (subst n) simp
  have "\<forall>p\<in>set P10K. 2 \<le> p" using P10K_ge2 by blast
  from trial_loop_total[OF this n1, of ?fs]
  consider fs' where "trial_loop P10K n1 ?fs = Some (Inl fs')" "factors_prod fs' = factors_prod ?fs * n1"
    | n2 fs' where "trial_loop P10K n1 ?fs = Some (Inr (n2, fs'))" "1 \<le> n2"
        "factors_prod fs' * n2 = factors_prod ?fs * n1"
    by blast
  then show ?thesis
  proof cases
    case 1
    have "prime_divisor_decomposition n rnd rs = Some (Inr fs')"
      by (simp only: prime_divisor_decomposition_def d option.case prod.case 1(1) sum.case)
    then show ?thesis using 1(2) n_eq by simp
  next
    case 2
    from rho_phase_total[OF 2(2), of rnd fs' rs] obtain fs where
      r: "rho_phase n2 rnd fs' rs = Some (Inr fs)" and f: "factors_prod fs = factors_prod fs' * n2"
      by blast
    have "prime_divisor_decomposition n rnd rs = Some (Inr fs)"
      by (simp only: prime_divisor_decomposition_def d option.case prod.case 2(1) sum.case r)
    then show ?thesis using f 2(3) n_eq by simp
  qed
qed

lemma decomposition_one: "prime_divisor_decomposition 1 rnd rs = Some (Inr [])"
proof -
  have d: "divide_out 1 p 0 = Some (1, 0)" if "2 \<le> p" for p
  proof -
    have "1 mod p = 1" using that by simp
    then show ?thesis by (subst divide_out.simps) simp
  qed
  have r: "rho_phase 1 rnd [] rs = Some (Inr [])" by (subst rho_phase.simps) simp
  have t: "trial_loop ps 1 [] = Some (Inl []) \<or> trial_loop ps 1 [] = Some (Inr (1, []))"
    if "\<forall>p\<in>set ps. 2 \<le> p" for ps
  proof (cases ps)
    case Nil
    then show ?thesis by simp
  next
    case (Cons p ps')
    with that have "2 \<le> p" by simp
    from d[OF this] show ?thesis unfolding Cons by simp
  qed
  have "\<forall>p\<in>set P10K. 2 \<le> p" using P10K_ge2 by blast
  from t[OF this] show ?thesis
    unfolding prime_divisor_decomposition_def using d[of 2] r by auto
qed

text \<open>
  C1: for every \<open>n \<ge> 1\<close>, whatever the flag and the random draws, the
  factorisation returns a list of (factor, exponent) pairs, and the product of
  \<open>factor ^ exponent\<close> over the list is \<open>n\<close>; for \<open>n = 1\<close> the list is empty.
\<close>

theorem decomposition_product:
  assumes "1 \<le> n"
  shows "(\<exists>fs. prime_divisor_decomposition n rnd rs = Some (Inr fs) \<and> factors_prod fs = n)
       \<and> prime_divisor_decomposition 1 rnd rs = Some (Inr [])"
  using decomposition_total[OF assms] decomposition_one by blast

theorem decomposition_product_witness:
  "(1::int) \<le> 360
   \<and> (\<exists>fs. prime_divisor_decomposition 360 True (zero_draws, 0) = Some (Inr fs)
          \<and> factors_prod fs = 360)
   \<and> prime_divisor_decomposition 1 True (zero_draws, 0) = Some (Inr [])"
  using decomposition_product[of 360 True "(zero_draws, 0)"] by simp

subsection \<open>Arguments below 1\<close>

lemma rho_loop_nonneg:
  assumes "rho_loop n c x y d = Some r"
  shows "(0 \<le> d \<longrightarrow> (\<forall>p. r = Inr p \<longrightarrow> 0 \<le> p)) \<and> (\<forall>e. r = Inl e \<longrightarrow> n = 0)"
proof (rule rho_loop.raw_induct[where P="\<lambda>(n::int) (c::int) (x::int) (y::int) (d::int) (r::error + int). (0 \<le> d \<longrightarrow> (\<forall>p. r = Inr p \<longrightarrow> 0 \<le> p)) \<and> (\<forall>e. r = Inl e \<longrightarrow> n = 0)"
      and xa="((((n, c), x), y), d)" and ya=r, unfolded prod.case, OF _ assms])
  fix f :: "int \<Rightarrow> int \<Rightarrow> int \<Rightarrow> int \<Rightarrow> int \<Rightarrow> (error + int) option"
    and n c x y d :: int and r
  assume IH: "\<And>n c x y d r. f n c x y d = Some r \<Longrightarrow> (0 \<le> d \<longrightarrow> (\<forall>p. r = Inr p \<longrightarrow> 0 \<le> p)) \<and> (\<forall>e. r = Inl e \<longrightarrow> n = 0)"
    and eq: "(if d = 1 \<and> d \<noteq> n then
        (if n = 0 then Some (Inl ZeroDivisionError)
         else let x1 = (x * x + c) mod n;
                  y1 = (y * y + c) mod n;
                  y2 = (y1 * y1 + c) mod n
              in f n c x1 y2 (gcd (y2 - x1) n))
      else Some (Inr d)) = Some r"
  show "(0 \<le> d \<longrightarrow> (\<forall>p. r = Inr p \<longrightarrow> 0 \<le> p)) \<and> (\<forall>e. r = Inl e \<longrightarrow> n = 0)"
  proof (cases "d = 1 \<and> d \<noteq> n")
    case False
    with eq show ?thesis by auto
  next
    case True
    show ?thesis
    proof (cases "n = 0")
      case True
      with \<open>d = 1 \<and> d \<noteq> n\<close> eq show ?thesis by auto
    next
      case False
      with True eq obtain x1 y2 where "f n c x1 y2 (gcd (y2 - x1) n) = Some r"
        by (auto simp: Let_def)
      from IH[OF this] show ?thesis by simp
    qed
  qed
qed

lemma pollard_rho_nonneg:
  assumes "pollard_rho n rnd rs = Some (Inr p, rs')"
  shows "0 \<le> p"
proof -
  from assms obtain x c where "rho_loop n c x x 1 = Some (Inr p)"
    by (auto simp: pollard_rho_def Let_def split: if_splits prod.splits)
  from rho_loop_nonneg[OF this] show ?thesis by simp
qed

lemma pollard_rho_error:
  assumes "pollard_rho n rnd rs = Some (Inl e, rs')"
  shows "n = 0"
proof -
  from assms obtain x c where "rho_loop n c x x 1 = Some (Inl e)"
    by (auto simp: pollard_rho_def Let_def split: if_splits prod.splits)
  from rho_loop_nonneg[OF this] show ?thesis by simp
qed

lemma is_prime_True_ge2:
  assumes "is_prime p accuracy rs = Some (True, rs')"
  shows "2 \<le> p"
  using assms by (cases "p < 2") (auto simp: is_prime_def)

lemma divide_out_sign:
  assumes "divide_out n p c = Some (n', c')" and "0 \<le> p" and "1 \<le> n'"
  shows "1 \<le> n"
proof -
  from divide_out_partial[OF assms(1)] have n: "n = n' * p ^ (c' - c)" by simp
  have "0 \<le> p ^ (c' - c)" using assms(2) by simp
  then have "0 \<le> n' * p ^ (c' - c)" using assms(3) by simp
  then have "0 \<le> n" using n by simp
  moreover have "n \<noteq> 0" using assms(1) divide_out_zero by auto
  ultimately show ?thesis by simp
qed

lemma rho_phase_returns_nonneg:
  assumes "rho_phase n rnd fs rs = Some r"
  shows "0 \<le> n"
proof (rule rho_phase.raw_induct[where P="\<lambda>(n::int) rnd fs rs r. 0 \<le> n", OF _ assms])
  fix f :: "int \<Rightarrow> bool \<Rightarrow> (int \<times> nat) list \<Rightarrow> rand \<Rightarrow> (error + (int \<times> nat) list) option"
    and n :: int and rnd fs and rs :: rand and r
  assume IH: "\<And>n rnd fs rs r. f n rnd fs rs = Some r \<Longrightarrow> 0 \<le> n"
    and eq: "(if n = 1 then Some (Inr fs)
      else case is_prime n 100 rs of
             None \<Rightarrow> None
           | Some (b, rs1) \<Rightarrow>
               if b then Some (Inr (fs @ [(n, 1)]))
               else (case pollard_rho n rnd rs1 of
                       None \<Rightarrow> None
                     | Some (Inl e, rs2) \<Rightarrow> Some (Inl e)
                     | Some (Inr p, rs2) \<Rightarrow>
                         (case divide_out n p 0 of
                            None \<Rightarrow> None
                          | Some (n', c) \<Rightarrow> f n' rnd (fs @ [(p, c)]) rs2))) = Some r"
  show "0 \<le> n"
  proof (rule ccontr)
    assume neg: "\<not> 0 \<le> n"
    then have n1: "n \<noteq> 1" by simp
    from neg have ip: "is_prime n 100 rs = Some (False, rs)" by (simp add: is_prime_def)
    from neg have "pollard_rho n rnd rs \<noteq> Some (Inl e, rs2)" for e rs2
      using pollard_rho_error[of n rnd rs e rs2] by auto
    with eq n1 ip obtain p rs2 n' c where
      pr: "pollard_rho n rnd rs = Some (Inr p, rs2)" and
      d: "divide_out n p 0 = Some (n', c)" and
      rec: "f n' rnd (fs @ [(p, c)]) rs2 = Some r"
      by (auto split: option.splits sum.splits prod.splits)
    from IH[OF rec] have "0 \<le> n'" .
    moreover have "n' \<noteq> 0" using divide_out_partial[OF d] by auto
    ultimately have "1 \<le> n'" by simp
    from divide_out_sign[OF d pollard_rho_nonneg[OF pr] this] neg show False by simp
  qed
qed

lemma trial_loop_negative:
  assumes "\<forall>p\<in>set ps. 2 \<le> p" and "n < 0" and "trial_loop ps n fs = Some r"
  shows "\<exists>n2 fs'. r = Inr (n2, fs') \<and> n2 < 0"
  using assms
proof (induction ps arbitrary: n fs)
  case Nil
  then show ?case by auto
next
  case (Cons p ps)
  from Cons.prems(3) obtain n' c where d: "divide_out n p 0 = Some (n', c)"
    by (auto split: option.splits)
  have p: "0 \<le> p" using Cons.prems(1) by simp
  have neg: "n' < 0"
  proof (rule ccontr)
    assume "\<not> n' < 0"
    moreover have "n' \<noteq> 0" using divide_out_partial[OF d] by auto
    ultimately have "1 \<le> n'" by simp
    from divide_out_sign[OF d p this] Cons.prems(2) show False by simp
  qed
  then have "n' \<noteq> 1" by simp
  moreover have "n' \<notin> set P10K" using P10K_ge2[of n'] neg by auto
  ultimately have "trial_loop (p # ps) n fs = trial_loop ps n' (if c \<noteq> 0 then fs @ [(p, c)] else fs)"
    by (simp add: d Let_def)
  with Cons.prems(3) have "trial_loop ps n' (if c \<noteq> 0 then fs @ [(p, c)] else fs) = Some r" by simp
  moreover from Cons.prems(1) have "\<forall>p\<in>set ps. 2 \<le> p" by simp
  ultimately show ?case using Cons.IH neg by blast
qed

lemma decomposition_below_one:
  assumes "n < 1"
  shows "prime_divisor_decomposition n rnd rs = None"
proof (rule ccontr)
  assume "prime_divisor_decomposition n rnd rs \<noteq> None"
  then obtain r where r: "prime_divisor_decomposition n rnd rs = Some r" by auto
  then obtain n1 c where d: "divide_out n 2 0 = Some (n1, c)"
    by (auto simp: prime_divisor_decomposition_def split: option.splits)
  have n0: "n \<noteq> 0" using d divide_out_zero by auto
  have neg: "n1 < 0"
  proof (rule ccontr)
    assume "\<not> n1 < 0"
    moreover have "n1 \<noteq> 0" using divide_out_partial[OF d] by auto
    ultimately have "1 \<le> n1" by simp
    from divide_out_sign[OF d _ this] assms show False by simp
  qed
  let ?fs = "if c \<noteq> 0 then [(2, c)] else []"
  from r d obtain t where t: "trial_loop P10K n1 ?fs = Some t"
    by (auto simp: prime_divisor_decomposition_def split: option.splits)
  have "\<forall>p\<in>set P10K. 2 \<le> p" using P10K_ge2 by blast
  from trial_loop_negative[OF this neg t] obtain n2 fs' where
    t': "t = Inr (n2, fs')" and n2: "n2 < 0" by blast
  from r d t t' have "rho_phase n2 rnd fs' rs = Some r"
    by (simp add: prime_divisor_decomposition_def)
  from rho_phase_returns_nonneg[OF this] n2 show False by simp
qed

lemma all_divisors_below_one:
  assumes "n < 1"
  shows "all_divisors n rnd rs = None"
  using assms decomposition_below_one[OF assms] by (simp add: all_divisors_def)

text \<open>
  C8 (as stated, refuted): for \<open>n = 0\<close> neither routine raises an error or comes
  back to the caller; the loop that strips the factors of two never ends.
\<close>

theorem zero_not_rejected:
  "prime_divisor_decomposition 0 True (zero_draws, 0) = None
   \<and> all_divisors 0 False (zero_draws, 0) = None"
  by (simp add: prime_divisor_decomposition_def all_divisors_def divide_out_zero)

text \<open>
  C8 (amended): the module has no argument check.  For every \<open>n < 1\<close>, whatever the
  flag and the random draws, \<^verbatim>\<open>prime_divisor_decomposition\<close> and \<^verbatim>\<open>all_divisors\<close>
  do not return: no error is raised and no result is computed.
\<close>

theorem below_one_diverges:
  assumes "n < 1"
  shows "prime_divisor_decomposition n rnd rs = None \<and> all_divisors n rnd rs = None"
  using decomposition_below_one[OF assms] all_divisors_below_one[OF assms] by simp

theorem below_one_diverges_witness:
  "(-4::int) < 1 \<and> prime_divisor_decomposition (-4) True (zero_draws, 0) = None
   \<and> all_divisors (-4) False (zero_draws, 0) = None"
  using below_one_diverges[of "-4" True "(zero_draws, 0)"]
    below_one_diverges[of "-4" False "(zero_draws, 0)"] by simp

subsection \<open>Elementary facts about primes\<close>

lemma prime_nat_coprime:
  assumes "prime_nat p" and "\<not> p dvd a"
  shows "coprime p a"
proof (rule coprimeI)
  fix d assume d: "d dvd p" "d dvd a"
  from assms(1) d(1) have "d = 1 \<or> d = p" by (simp add: prime_nat_def)
  with d(2) assms(2) show "is_unit d" by auto
qed

lemma prime_nat_dvd_mult:
  assumes "prime_nat p" and "p dvd a * b"
  shows "p dvd a \<or> p dvd b"
proof (cases "p dvd a")
  case False
  from prime_nat_coprime[OF assms(1) False] assms(2) have "p dvd b"
    by (simp add: coprime_dvd_mult_right_iff)
  then show ?thesis ..
qed simp

lemma prime_int_dvd_mult:
  assumes "prime_int p" and "p dvd a * b"
  shows "p dvd a \<or> p dvd b"
proof -
  from assms(1) have p: "0 < p" "prime_nat (nat p)" by (auto simp: prime_int_def)
  from assms(2) have "nat p dvd nat \<bar>a * b\<bar>" using p(1) by (simp add: nat_dvd_iff)
  then have "nat p dvd nat \<bar>a\<bar> * nat \<bar>b\<bar>" by (simp add: abs_mult nat_mult_distrib)
  from prime_nat_dvd_mult[OF p(2) this] show ?thesis using p(1) by (auto simp: nat_dvd_iff)
qed

lemma prime_nat_dvd_binomial:
  assumes "prime_nat p" and "0 < k" and "k < p"
  shows "p dvd (p choose k)"
proof -
  have "k * (p choose k) = p * ((p - 1) choose (k - 1))"
    using assms(2) by (rule times_binomial_minus1_eq)
  then have "p dvd k * (p choose k)" by simp
  moreover have "\<not> p dvd k" using assms(2,3) by (auto dest: dvd_imp_le)
  ultimately show ?thesis using prime_nat_dvd_mult[OF assms(1)] by blast
qed

lemma fermat_power:
  assumes "prime_nat p"
  shows "a ^ p mod p = a mod p"
proof (induction a)
  case 0
  from assms have "0 < p" by (simp add: prime_nat_def)
  then show ?case by (simp add: power_0_left)
next
  case (Suc a)
  from assms have p1: "1 < p" by (simp add: prime_nat_def)
  have "(a + 1) ^ p = (\<Sum>k\<le>p. (p choose k) * a ^ k)"
    using binomial[of a 1 p] by simp
  also have "{..p} = insert 0 (insert p {1..<p})" using p1 by auto
  also have "(\<Sum>k\<in>insert 0 (insert p {1..<p}). (p choose k) * a ^ k)
      = 1 + (a ^ p + (\<Sum>k\<in>{1..<p}. (p choose k) * a ^ k))"
    using p1 by simp
  finally have e: "(a + 1) ^ p = 1 + (a ^ p + (\<Sum>k\<in>{1..<p}. (p choose k) * a ^ k))" .
  have "p dvd (\<Sum>k\<in>{1..<p}. (p choose k) * a ^ k)"
  proof (rule dvd_sum)
    fix k assume "k \<in> {1..<p}"
    then have "p dvd (p choose k)" using prime_nat_dvd_binomial[OF assms, of k] by simp
    then show "p dvd (p choose k) * a ^ k" by (rule dvd_mult2)
  qed
  then have "(\<Sum>k\<in>{1..<p}. (p choose k) * a ^ k) mod p = 0" by simp
  then have "(a + 1) ^ p mod p = (1 + a ^ p) mod p"
    unfolding e by (metis add.assoc mod_add_right_eq add.right_neutral)
  also have "\<dots> = Suc (a ^ p) mod p" by simp
  also have "\<dots> = Suc (a ^ p mod p) mod p" by (simp only: mod_Suc_eq)
  also have "\<dots> = Suc (a mod p) mod p" using Suc by simp
  also have "\<dots> = Suc a mod p" by (simp only: mod_Suc_eq)
  finally show ?case by simp
qed

lemma fermat_little:
  assumes "prime_nat p" and "\<not> p dvd a"
  shows "a ^ (p - 1) mod p = 1"
proof -
  from assms(1) have p1: "1 < p" by (simp add: prime_nat_def)
  have a0: "0 < a" using assms(2) by (cases a) auto
  have le: "1 \<le> a ^ (p - 1)" using a0 by simp
  have "a ^ p = a * a ^ (p - 1)" using p1 by (cases p) auto
  with fermat_power[OF assms(1), of a] have "(a * a ^ (p - 1)) mod p = (a * 1) mod p" by simp
  then have "p dvd a * a ^ (p - 1) - a * 1"
    using le by (subst (asm) mod_eq_dvd_iff_nat) auto
  then have "p dvd a * (a ^ (p - 1) - 1)" by (simp add: diff_mult_distrib2)
  with prime_nat_dvd_mult[OF assms(1)] assms(2) have "p dvd a ^ (p - 1) - 1" by blast
  then have "a ^ (p - 1) mod p = 1 mod p"
    using le by (subst mod_eq_dvd_iff_nat) auto
  then show ?thesis using p1 by simp
qed

lemma fermat_little_int:
  assumes "prime_int p" and "0 < a" and "a < p"
  shows "a ^ nat (p - 1) mod p = 1"
proof -
  from assms(1) have p: "1 < p" "prime_nat (nat p)" by (auto simp: prime_int_def)
  have "\<not> nat p dvd nat a" using assms(2,3) by (auto dest!: dvd_imp_le)
  from fermat_little[OF p(2) this] have "nat a ^ (nat p - 1) mod nat p = 1" .
  then have "int (nat a ^ (nat p - 1) mod nat p) = 1" by simp
  then have "a ^ (nat p - 1) mod p = 1"
    using assms(2) p(1) by (simp add: zmod_int)
  moreover have "nat p - 1 = nat (p - 1)" using p(1) by simp
  ultimately show ?thesis by simp
qed

lemma sqrt_of_one:
  assumes "prime_int p" and "0 \<le> x" and "x < p" and "x * x mod p = 1"
  shows "x = 1 \<or> x = p - 1"
proof -
  from assms(1) have p1: "1 < p" by (simp add: prime_int_def)
  from assms(4) have "x * x mod p = 1 mod p" using p1 by simp
  then have "p dvd x * x - 1" by (simp add: mod_eq_dvd_iff)
  moreover have "x * x - 1 = (x - 1) * (x + 1)" by (simp add: algebra_simps)
  ultimately have "p dvd (x - 1) * (x + 1)" by simp
  from prime_int_dvd_mult[OF assms(1) this] show ?thesis
  proof
    assume "p dvd x - 1"
    then obtain q where q: "x - 1 = p * q" by (auto simp: dvd_def)
    have "q = 0"
    proof (rule ccontr)
      assume "q \<noteq> 0"
      then consider "1 \<le> q" | "q \<le> -1" by linarith
      then show False
      proof cases
        case 1
        then have "p * 1 \<le> p * q" using p1 by (intro mult_left_mono) auto
        with q assms(3) show False by simp
      next
        case 2
        then have "p * q \<le> p * (-1)" using p1 by (intro mult_left_mono) auto
        with q assms(2) p1 show False by simp
      qed
    qed
    with q show ?thesis by simp
  next
    assume "p dvd x + 1"
    then obtain q where q: "x + 1 = p * q" by (auto simp: dvd_def)
    have "q = 1"
    proof (rule ccontr)
      assume "q \<noteq> 1"
      then consider "2 \<le> q" | "q \<le> 0" by linarith
      then show False
      proof cases
        case 1
        then have "p * 2 \<le> p * q" using p1 by (intro mult_left_mono) auto
        with q assms(3) p1 show False by simp
      next
        case 2
        then have "p * q \<le> p * 0" using p1 by (intro mult_left_mono) auto
        with q assms(2) show False by simp
      qed
    qed
    with q show ?thesis by simp
  qed
qed

subsection \<open>Miller-Rabin never rejects a prime\<close>

lemma pow_mod_two: "pow_mod w 2 p = w * w mod p"
  by (simp add: pow_mod_def power2_eq_square)

lemma mr_squarings_False:
  assumes p: "prime_int p"
  shows "0 \<le> w \<Longrightarrow> w < p \<Longrightarrow> w \<noteq> 1 \<Longrightarrow> w \<noteq> p - 1 \<Longrightarrow> w ^ (2 ^ k) mod p = 1
    \<Longrightarrow> \<not> mr_squarings k w p"
proof (induction k arbitrary: w)
  case 0
  then show ?case by simp
next
  case (Suc k)
  from p have p1: "1 < p" by (simp add: prime_int_def)
  let ?w = "w * w mod p"
  show ?case
  proof (cases "?w = p - 1")
    case True
    then show ?thesis by (simp add: pow_mod_two)
  next
    case False
    have r: "0 \<le> ?w" "?w < p" using p1 by simp_all
    have "?w \<noteq> 1" using sqrt_of_one[OF p Suc.prems(1,2)] Suc.prems(3,4) by blast
    moreover have "?w ^ (2 ^ k) mod p = 1"
    proof -
      have "?w ^ (2 ^ k) mod p = (w * w) ^ (2 ^ k) mod p" by (simp add: power_mod)
      also have "(w * w) ^ (2 ^ k) = w ^ (2 ^ Suc k)"
        by (simp add: power2_eq_square[symmetric] power_mult[symmetric])
      finally show ?thesis using Suc.prems(5) by simp
    qed
    ultimately have "\<not> mr_squarings k ?w p" using Suc.IH[OF r] False by blast
    then show ?thesis using False by (simp add: pow_mod_two)
  qed
qed

lemma mr_isWitness_prime:
  assumes p: "prime_int p" and a: "0 < a" "a < p"
    and dec: "p - 1 = d * 2 ^ e" and d: "0 \<le> d"
  shows "\<not> mr_isWitness a p e d"
proof -
  from p have p1: "1 < p" by (simp add: prime_int_def)
  let ?w = "a ^ nat d mod p"
  have r: "0 \<le> ?w" "?w < p" using p1 by simp_all
  have "nat (p - 1) = nat d * 2 ^ e" using dec d by (simp add: nat_mult_distrib nat_power_eq)
  then have "a ^ nat (p - 1) = (a ^ nat d) ^ (2 ^ e)" by (simp add: power_mult)
  then have one: "?w ^ (2 ^ e) mod p = 1"
    using fermat_little_int[OF p a] by (simp add: power_mod)
  show ?thesis
  proof (cases "?w = 1 \<or> ?w = p - 1")
    case True
    then show ?thesis by (auto simp: mr_isWitness_def pow_mod_def)
  next
    case False
    then have "\<not> mr_squarings e ?w p" using mr_squarings_False[OF p r _ _ one] by blast
    with False show ?thesis by (simp add: mr_isWitness_def pow_mod_def)
  qed
qed

lemma randint_range:
  assumes "a \<le> b"
  shows "a \<le> fst (randint a b rs) \<and> fst (randint a b rs) \<le> b"
proof -
  have pos: "0 < b - a + 1" using assms by simp
  have "0 \<le> int (fst rs (snd rs)) mod (b - a + 1)" using pos by (rule pos_mod_sign)
  moreover have "int (fst rs (snd rs)) mod (b - a + 1) < b - a + 1" using pos by (rule pos_mod_bound)
  ultimately show ?thesis unfolding randint_def fst_conv by linarith
qed

lemma mr_trials_prime:
  assumes p: "prime_int p" and p4: "4 \<le> p" and dec: "p - 1 = d * 2 ^ e" and d: "0 \<le> d"
  shows "fst (mr_trials k p e d rs) = True"
proof (induction k arbitrary: rs)
  case 0
  then show ?case by simp
next
  case (Suc k)
  obtain a rs' where ra: "randint 2 (p - 2) rs = (a, rs')" by (cases "randint 2 (p - 2) rs")
  from randint_range[of 2 "p - 2" rs] p4 ra have "2 \<le> a" "a \<le> p - 2" by auto
  then have "\<not> mr_isWitness a p e d" by (intro mr_isWitness_prime[OF p _ _ dec d]) auto
  then show ?case using ra Suc.IH[of rs'] by simp
qed

lemma prime_int_not_4: "\<not> prime_int 4"
proof
  assume "prime_int 4"
  then have "\<forall>d::nat. d dvd 4 \<longrightarrow> d = 1 \<or> d = 4" by (simp add: prime_int_def prime_nat_def)
  from this[rule_format, of 2] show False by simp
qed

lemma is_prime_prime:
  assumes p: "prime_int p"
  shows "\<exists>rs'. is_prime p accuracy rs = Some (True, rs')"
proof (cases "p = 2 \<or> p = 3")
  case True
  then show ?thesis by (auto simp: is_prime_def)
next
  case False
  from p have p1: "1 < p" by (simp add: prime_int_def)
  with False prime_int_not_4 p have p5: "5 \<le> p" by (cases "p = 4") auto
  then have "1 \<le> p - 1" by simp
  from mr_decompose_loop_total[OF this, of 0] obtain e d where
    md: "mr_decompose_loop (p - 1) 0 = Some (e, d)" by (metis surj_pair)
  from mr_decompose_loop_partial[OF md] have dec: "p - 1 = d * 2 ^ e" by simp
  have d: "0 \<le> d"
  proof (rule ccontr)
    assume "\<not> 0 \<le> d"
    then have "d * 2 ^ e < 0" by (simp add: mult_less_0_iff)
    with dec p5 show False by simp
  qed
  have "fst (mr_trials (nat accuracy) p e d rs) = True"
    by (rule mr_trials_prime[OF p _ dec d]) (use p5 in simp)
  then obtain rs' where "mr_trials (nat accuracy) p e d rs = (True, rs')"
    by (cases "mr_trials (nat accuracy) p e d rs") auto
  then show ?thesis using False p5 md by (simp add: is_prime_def mr_decompose_def)
qed

lemma prime_nat_7: "prime_nat 7"
  unfolding prime_nat_def
proof (intro conjI allI impI)
  fix d :: nat assume d: "d dvd 7"
  then have "d \<le> 7" by (rule dvd_imp_le) simp
  then consider "d = 0" | "d = 1" | "d = 2" | "d = 3" | "d = 4" | "d = 5" | "d = 6" | "d = 7"
    by linarith
  then show "d = 1 \<or> d = 7" using d by cases simp_all
qed simp

text \<open>
  C4: for every prime \<open>p\<close>, every accuracy and every sequence of random draws,
  \<^verbatim>\<open>_is_prime\<close> returns true; for every \<open>p < 2\<close> it returns false.
\<close>

theorem is_prime_no_false_negative:
  "(prime_int p \<longrightarrow> (\<exists>rs'. is_prime p accuracy rs = Some (True, rs')))
   \<and> (p < 2 \<longrightarrow> is_prime p accuracy rs = Some (False, rs))"
  using is_prime_prime[of p accuracy rs] by (simp add: is_prime_def)

theorem is_prime_no_false_negative_witness:
  "prime_int 7 \<and> (\<exists>rs'. is_prime 7 100 (zero_draws, 0) = Some (True, rs'))
   \<and> (1::int) < 2 \<and> is_prime 1 100 (zero_draws, 0) = Some (False, (zero_draws, 0))"
  using is_prime_no_false_negative[of 7 100 "(zero_draws, 0)"]
    is_prime_no_false_negative[of 1 100 "(zero_draws, 0)"] prime_nat_7
  by (simp add: prime_int_def)

subsection \<open>The wheel: indices and the numbers coprime to 6\<close>

lemma wheel_cases: "wheel i = (if even i then 3 * i + 1 else 3 * i + 2)"
  unfolding wheel_def by (rule wheel_eq)

lemma wheel_odd: "odd (wheel i)"
  unfolding wheel_cases by auto

lemma wheel_not3: "\<not> 3 dvd wheel i"
  unfolding wheel_cases by presburger

lemma wheel_div3: "wheel i div 3 = i"
  unfolding wheel_cases by presburger

lemma wheel_inv: "odd m \<Longrightarrow> \<not> 3 dvd m \<Longrightarrow> wheel (m div 3) = m"
  unfolding wheel_cases by presburger

lemma wheel_mono: "i < j \<Longrightarrow> wheel i < wheel j"
  unfolding wheel_cases by presburger

lemma wheel_inj: "wheel i = wheel j \<Longrightarrow> i = j"
  by (metis wheel_div3)

lemma wheel_ge5: "1 \<le> i \<Longrightarrow> 5 \<le> wheel i"
  unfolding wheel_cases by presburger

lemma wheel_0: "wheel 0 = 1"
  unfolding wheel_cases by simp

lemma prime_nat_2: "prime_nat 2"
  unfolding prime_nat_def
proof (intro conjI allI impI)
  fix d :: nat assume d: "d dvd 2"
  then have "d \<le> 2" by (rule dvd_imp_le) simp
  then consider "d = 0" | "d = 1" | "d = 2" by linarith
  then show "d = 1 \<or> d = 2" using d by cases simp_all
qed simp

lemma prime_nat_3: "prime_nat 3"
  unfolding prime_nat_def
proof (intro conjI allI impI)
  fix d :: nat assume d: "d dvd 3"
  then have "d \<le> 3" by (rule dvd_imp_le) simp
  then consider "d = 0" | "d = 1" | "d = 2" | "d = 3" by linarith
  then show "d = 1 \<or> d = 3" using d by cases simp_all
qed simp

lemma three_dvd_mult: "(3::nat) dvd a * b \<longleftrightarrow> 3 dvd a \<or> 3 dvd b"
  using prime_nat_dvd_mult[OF prime_nat_3, of a b] by auto

lemma slice_clear_length [simp]: "length (slice_clear a s sv) = length sv"
  by (simp add: slice_clear_def)

lemma slice_clear_nth:
  "j < length sv \<Longrightarrow> slice_clear a s sv ! j = (sv ! j \<and> \<not> (a \<le> j \<and> (j - a) mod s = 0))"
  by (simp add: slice_clear_def)

lemma stride_iff:
  fixes a s j :: nat
  shows "(a \<le> j \<and> (j - a) mod s = 0) \<longleftrightarrow> (\<exists>t. j = a + s * t)"
proof
  assume h: "a \<le> j \<and> (j - a) mod s = 0"
  then have "s dvd j - a" by auto
  then obtain t where "j - a = s * t" by (auto simp: dvd_def)
  with h have "j = a + s * t" by simp
  then show "\<exists>t. j = a + s * t" ..
next
  assume "\<exists>t. j = a + s * t"
  then show "a \<le> j \<and> (j - a) mod s = 0" by auto
qed

lemma stride_wheel:
  assumes "odd N" and "\<not> 3 dvd N"
  shows "(\<exists>t. j = N div 3 + 2 * k * t) \<longleftrightarrow> (\<exists>t. wheel j = N + 6 * k * t)"
proof
  assume "\<exists>t. j = N div 3 + 2 * k * t"
  then obtain t where j: "j = N div 3 + 2 * k * t" ..
  define M where "M = k * t"
  have "odd (N + 6 * M)" using assms(1) by simp
  moreover have "\<not> 3 dvd N + 6 * M" using assms(2) by presburger
  ultimately have "wheel ((N + 6 * M) div 3) = N + 6 * M" by (rule wheel_inv)
  moreover have "(N + 6 * M) div 3 = N div 3 + 2 * M" by presburger
  ultimately have "wheel j = N + 6 * k * t" using j by (simp add: M_def mult.assoc)
  then show "\<exists>t. wheel j = N + 6 * k * t" ..
next
  assume "\<exists>t. wheel j = N + 6 * k * t"
  then obtain t where w: "wheel j = N + 6 * k * t" ..
  define M where "M = k * t"
  have "j = wheel j div 3" by (simp add: wheel_div3)
  also have "\<dots> = (N + 6 * M) div 3" using w by (simp add: M_def mult.assoc)
  also have "\<dots> = N div 3 + 2 * M" by presburger
  finally have "j = N div 3 + 2 * k * t" by (simp add: M_def mult.assoc)
  then show "\<exists>t. j = N div 3 + 2 * k * t" ..
qed

lemma marks_iff:
  assumes i: "1 \<le> i"
  shows "marks i j \<longleftrightarrow> wheel i dvd wheel j \<and> wheel i * wheel i \<le> wheel j"
proof -
  define k where "k = wheel i"
  define k' where "k' = k - 2 * (i AND 1) + 4"
  have k5: "5 \<le> k" using wheel_ge5[OF i] by (simp add: k_def)
  have kc: "k = (if even i then 3 * i + 1 else 3 * i + 2)" unfolding k_def by (rule wheel_cases)
  have k'c: "k' = (if even i then k + 4 else k + 2)"
    unfolding k'_def using k5 by (auto simp: and_one_eq odd_iff_mod_2_eq_one)
  have ko: "odd k" "\<not> 3 dvd k" unfolding k_def by (rule wheel_odd, rule wheel_not3)
  have k'o: "odd k'" "\<not> 3 dvd k'" using ko kc unfolding k'c by presburger+
  have N1: "odd (k * k)" "\<not> 3 dvd k * k" using ko by (simp_all add: three_dvd_mult)
  have N2: "odd (k * k')" "\<not> 3 dvd k * k'" using ko k'o by (simp_all add: three_dvd_mult)
  have "marks i j \<longleftrightarrow> (\<exists>t. j = k * k div 3 + 2 * k * t) \<or> (\<exists>t. j = k * k' div 3 + 2 * k * t)"
    unfolding marks_def k_def[symmetric] k'_def[symmetric] stride_iff ..
  also have "\<dots> \<longleftrightarrow> (\<exists>t. wheel j = k * k + 6 * k * t) \<or> (\<exists>t. wheel j = k * k' + 6 * k * t)"
    unfolding stride_wheel[OF N1] stride_wheel[OF N2] ..
  also have "\<dots> \<longleftrightarrow> k dvd wheel j \<and> k * k \<le> wheel j"
  proof
    assume "(\<exists>t. wheel j = k * k + 6 * k * t) \<or> (\<exists>t. wheel j = k * k' + 6 * k * t)"
    then show "k dvd wheel j \<and> k * k \<le> wheel j"
    proof (elim disjE exE)
      fix t assume w: "wheel j = k * k + 6 * k * t"
      then have "wheel j = k * (k + 6 * t)" by (simp add: algebra_simps)
      then show ?thesis using w by simp
    next
      fix t assume w: "wheel j = k * k' + 6 * k * t"
      then have e: "wheel j = k * (k' + 6 * t)" by (simp add: algebra_simps)
      have "k \<le> k' + 6 * t" unfolding k'c by simp
      then have "k * k \<le> k * (k' + 6 * t)" by (rule mult_le_mono2)
      then show ?thesis using e by simp
    qed
  next
    assume h: "k dvd wheel j \<and> k * k \<le> wheel j"
    then obtain m where m: "wheel j = k * m" by (auto simp: dvd_def)
    with h have km: "k \<le> m" using k5 by simp
    have "odd (k * m)" "\<not> 3 dvd k * m" using wheel_odd[of j] wheel_not3[of j] m by simp_all
    then have mo: "odd m" "\<not> 3 dvd m" by (simp_all add: three_dvd_mult)
    obtain a where a: "m = 6 * a + m mod 6" by (metis mult_div_mod_eq)
    obtain b where b: "k = 6 * b + k mod 6" by (metis mult_div_mod_eq)
    from mo have mm: "m mod 6 = 1 \<or> m mod 6 = 5" by presburger
    from kc have kk: "k mod 6 = (if even i then 1 else 5)" by presburger
    have "(\<exists>t. m = k + 6 * t) \<or> (\<exists>t. m = k' + 6 * t)"
    proof (cases "m mod 6 = k mod 6")
      case True
      with a b km have "m = k + 6 * (a - b)" by linarith
      then show ?thesis by blast
    next
      case False
      show ?thesis
      proof (cases "even i")
        case True
        with kk False mm have r: "k mod 6 = 1" "m mod 6 = 5" by auto
        with a b km have "m = (k + 4) + 6 * (a - b)" by linarith
        then show ?thesis using True by (auto simp: k'c)
      next
        case odd: False
        with kk False mm have r: "k mod 6 = 5" "m mod 6 = 1" by auto
        with a b km have "m = (k + 2) + 6 * (a - b - 1)" by linarith
        then show ?thesis using odd by (auto simp: k'c)
      qed
    qed
    then show "(\<exists>t. wheel j = k * k + 6 * k * t) \<or> (\<exists>t. wheel j = k * k' + 6 * k * t)"
    proof (elim disjE exE)
      fix t assume "m = k + 6 * t"
      then have "wheel j = k * k + 6 * k * t" using m by (simp add: algebra_simps)
      then show ?thesis by blast
    next
      fix t assume "m = k' + 6 * t"
      then have "wheel j = k * k' + 6 * k * t" using m by (simp add: algebra_simps)
      then show ?thesis by blast
    qed
  qed
  finally show ?thesis unfolding k_def .
qed

subsection \<open>The invariant of the sieve loop\<close>

lemma isqrt_bounds: "isqrt n * isqrt n \<le> n \<and> n < (isqrt n + 1) * (isqrt n + 1)"
proof (induction n)
  case 0
  then show ?case by simp
next
  case (Suc n)
  then show ?case by (auto simp: Let_def)
qed

lemma isqrt_ge: "q * q \<le> n \<Longrightarrow> q \<le> isqrt n"
proof (rule ccontr)
  assume q: "q * q \<le> n" and "\<not> q \<le> isqrt n"
  then have "isqrt n + 1 \<le> q" by linarith
  then have "(isqrt n + 1) * (isqrt n + 1) \<le> q * q" by (intro mult_le_mono)
  with isqrt_bounds[of n] q show False by simp
qed

lemma prime_factor_le_sqrt:
  assumes "2 \<le> m" and "\<not> prime_nat m"
  shows "\<exists>q. prime_nat q \<and> q dvd m \<and> q * q \<le> m"
proof -
  define d where "d = (LEAST d. 2 \<le> d \<and> d dvd m)"
  have ex: "2 \<le> m \<and> m dvd m" using assms(1) by simp
  have d: "2 \<le> d" "d dvd m" using LeastI[of "\<lambda>d. 2 \<le> d \<and> d dvd m" m, OF ex] by (auto simp: d_def)
  have least: "d \<le> e" if "2 \<le> e" "e dvd m" for e
    using Least_le[of "\<lambda>d. 2 \<le> d \<and> d dvd m" e] that by (auto simp: d_def)
  have m0: "0 < m" using assms(1) by simp
  have pd: "prime_nat d"
    unfolding prime_nat_def
  proof (intro conjI allI impI)
    show "1 < d" using d(1) by simp
    fix e assume e: "e dvd d"
    show "e = 1 \<or> e = d"
    proof (cases "e = 1")
      case False
      have "e \<noteq> 0"
      proof
        assume "e = 0"
        with e have "d = 0" by simp
        with d(1) show False by simp
      qed
      with False have "2 \<le> e" by simp
      moreover have "e dvd m" using e d(2) by (rule dvd_trans)
      ultimately have "d \<le> e" by (rule least)
      moreover have "e \<le> d" using dvd_imp_le[OF e] d(1) by simp
      ultimately show ?thesis by simp
    qed simp
  qed
  have "d \<noteq> m" using pd assms(2) by auto
  obtain c where c: "m = d * c" using d(2) by (auto simp: dvd_def)
  have "c \<noteq> 0" using c m0 by auto
  moreover have "c \<noteq> 1" using c \<open>d \<noteq> m\<close> by auto
  ultimately have "2 \<le> c" by simp
  moreover have "c dvd m" using c by simp
  ultimately have "d \<le> c" by (rule least)
  then have "d * d \<le> d * c" by (rule mult_le_mono2)
  with c pd d(2) show ?thesis by auto
qed

lemma sieve_step_length [simp]: "length (sieve_step i sv) = length sv"
  by (simp add: sieve_step_def Let_def)

lemma sieve_step_nth:
  assumes "j < length sv"
  shows "sieve_step i sv ! j = (sv ! j \<and> \<not> (sv ! i \<and> marks i j))"
  using assms
  by (auto simp: sieve_step_def Let_def slice_clear_nth marks_def wheel_def)

lemma prime_wheel_no_marker:
  assumes "prime_nat (wheel j)" and "1 \<le> i" and "wheel i dvd wheel j"
  shows "\<not> wheel i * wheel i \<le> wheel j"
proof
  assume le: "wheel i * wheel i \<le> wheel j"
  from wheel_ge5[OF assms(2)] have k5: "5 \<le> wheel i" .
  from assms(1,3) k5 have "wheel i = wheel j" by (auto simp: prime_nat_def)
  with le have "wheel j * wheel j \<le> wheel j * 1" by simp
  then have "wheel j \<le> 1" using k5 \<open>wheel i = wheel j\<close>
    by (metis mult_le_cancel1 not_numeral_le_zero order_trans linorder_not_le zero_less_iff_neq_zero)
  with k5 \<open>wheel i = wheel j\<close> show False by simp
qed

lemma composite_wheel_marker:
  assumes "1 \<le> j" and "\<not> prime_nat (wheel j)"
  shows "\<exists>i. 1 \<le> i \<and> i < j \<and> prime_nat (wheel i) \<and> wheel i dvd wheel j
            \<and> wheel i * wheel i \<le> wheel j"
proof -
  from wheel_ge5[OF assms(1)] have w5: "5 \<le> wheel j" .
  then have "2 \<le> wheel j" by simp
  from prime_factor_le_sqrt[OF this assms(2)] obtain q where
    q: "prime_nat q" "q dvd wheel j" "q * q \<le> wheel j" by blast
  have qo: "odd q" using q(2) wheel_odd[of j] by (auto elim: dvd_trans)
  have q3: "\<not> 3 dvd q" using q(2) wheel_not3[of j] by (auto elim: dvd_trans)
  have q1: "1 < q" using q(1) by (simp add: prime_nat_def)
  with qo q3 have q5: "5 \<le> q" by presburger
  have w: "wheel (q div 3) = q" using qo q3 by (rule wheel_inv)
  have "q < wheel j"
  proof (rule ccontr)
    assume "\<not> q < wheel j"
    moreover have "q \<le> wheel j" using q(2) w5 by (intro dvd_imp_le) auto
    ultimately have "q = wheel j" by simp
    with q(1) assms(2) show False by simp
  qed
  then have "q div 3 < j" using w wheel_mono[of j "q div 3"]
    by (metis linorder_neqE_nat less_asym)
  moreover have "1 \<le> q div 3" using q5 by simp
  ultimately show ?thesis using q w by (intro exI[of _ "q div 3"]) simp
qed

lemma sieved_entry:
  assumes "sieved t sv" and "Suc t < length sv"
  shows "sv ! Suc t \<longleftrightarrow> prime_nat (wheel (Suc t))"
proof
  assume set: "sv ! Suc t"
  show "prime_nat (wheel (Suc t))"
  proof (rule ccontr)
    assume "\<not> prime_nat (wheel (Suc t))"
    from composite_wheel_marker[OF _ this] obtain i where
      "1 \<le> i" "i < Suc t" "prime_nat (wheel i)" "wheel i dvd wheel (Suc t)"
      "wheel i * wheel i \<le> wheel (Suc t)" by auto
    then have "\<not> sv ! Suc t" using assms unfolding sieved_def by auto
    with set show False by simp
  qed
next
  assume "prime_nat (wheel (Suc t))"
  then show "sv ! Suc t"
    using assms prime_wheel_no_marker[of "Suc t"] unfolding sieved_def by blast
qed

lemma sieve_step_inv:
  assumes "sieved t sv" and "Suc t < length sv"
  shows "sieved (Suc t) (sieve_step (Suc t) sv)"
  unfolding sieved_def
proof (intro allI impI)
  fix j assume "j < length (sieve_step (Suc t) sv)"
  then have j: "j < length sv" by simp
  have old: "sv ! j \<longleftrightarrow> \<not> (\<exists>i. 1 \<le> i \<and> i \<le> t \<and> prime_nat (wheel i) \<and> wheel i dvd wheel j
      \<and> wheel i * wheel i \<le> wheel j)"
    using assms(1) j unfolding sieved_def by blast
  have new: "sieve_step (Suc t) sv ! j \<longleftrightarrow> sv ! j \<and> \<not> (prime_nat (wheel (Suc t))
      \<and> wheel (Suc t) dvd wheel j \<and> wheel (Suc t) * wheel (Suc t) \<le> wheel j)"
    unfolding sieve_step_nth[OF j] sieved_entry[OF assms] by (subst marks_iff) auto
  show "sieve_step (Suc t) sv ! j \<longleftrightarrow> \<not> (\<exists>i. 1 \<le> i \<and> i \<le> Suc t \<and> prime_nat (wheel i)
      \<and> wheel i dvd wheel j \<and> wheel i * wheel i \<le> wheel j)"
    unfolding new old
  proof -
    have split: "i \<le> Suc t \<longleftrightarrow> i \<le> t \<or> i = Suc t" for i by auto
    show "(\<not> (\<exists>i. 1 \<le> i \<and> i \<le> t \<and> prime_nat (wheel i) \<and> wheel i dvd wheel j
          \<and> wheel i * wheel i \<le> wheel j)
        \<and> \<not> (prime_nat (wheel (Suc t)) \<and> wheel (Suc t) dvd wheel j
          \<and> wheel (Suc t) * wheel (Suc t) \<le> wheel j))
      \<longleftrightarrow> \<not> (\<exists>i. 1 \<le> i \<and> i \<le> Suc t \<and> prime_nat (wheel i)
          \<and> wheel i dvd wheel j \<and> wheel i * wheel i \<le> wheel j)"
      unfolding split by auto
  qed
qed

lemma sieve_loop_inv:
  "sieved t sv \<Longrightarrow> (m = 0 \<or> t + m < length sv) \<Longrightarrow>
   \<exists>sv'. sieve_loop [Suc t..<Suc (t + m)] sv = Inr sv' \<and> length sv' = length sv
         \<and> sieved (t + m) sv'"
proof (induction m arbitrary: t sv)
  case 0
  then show ?case by simp
next
  case (Suc m)
  then have lt: "Suc t < length sv" and lt': "m = 0 \<or> Suc t + m < length sv" by auto
  have upt: "[Suc t..<Suc (t + Suc m)] = Suc t # [Suc (Suc t)..<Suc (Suc t + m)]"
    by (simp add: upt_conv_Cons)
  from sieve_step_inv[OF Suc.prems(1) lt] have inv: "sieved (Suc t) (sieve_step (Suc t) sv)" .
  from Suc.IH[OF inv] lt' obtain sv' where
    "sieve_loop [Suc (Suc t)..<Suc (Suc t + m)] (sieve_step (Suc t) sv) = Inr sv'"
    "length sv' = length sv" "sieved (Suc t + m) sv'"
    by auto
  then show ?case unfolding upt using lt by simp
qed

subsection \<open>The sieve returns the primes below the bound\<close>

lemma wheel_range:
  "j < n div 3 + (if n mod 6 = 2 then 1 else 0) \<longleftrightarrow> wheel j < n"
  unfolding wheel_cases
proof -
  define q where "q = n div 6"
  define r where "r = n mod 6"
  have n: "n = 6 * q + r" and r: "r < 6" by (simp_all add: q_def r_def)
  have d3: "n div 3 = 2 * q + r div 3" unfolding n by presburger
  have m6: "n mod 6 = r" by (simp add: r_def)
  from r consider "r = 0" | "r = 1" | "r = 2" | "r = 3" | "r = 4" | "r = 5" by linarith
  then show "j < n div 3 + (if n mod 6 = 2 then 1 else 0)
      \<longleftrightarrow> (if even j then 3 * j + 1 else 3 * j + 2) < n"
  proof cases
    case 1 then show ?thesis unfolding d3 m6 by (auto simp: n elim!: evenE oddE; presburger)
  next
    case 2 then show ?thesis unfolding d3 m6 by (auto simp: n elim!: evenE oddE; presburger)
  next
    case 3 then show ?thesis unfolding d3 m6 by (auto simp: n elim!: evenE oddE; presburger)
  next
    case 4 then show ?thesis unfolding d3 m6 by (auto simp: n elim!: evenE oddE; presburger)
  next
    case 5 then show ?thesis unfolding d3 m6 by (auto simp: n elim!: evenE oddE; presburger)
  next
    case 6 then show ?thesis unfolding d3 m6 by (auto simp: n elim!: evenE oddE; presburger)
  qed
qed

lemma sieved_init: "sieved 0 (replicate len True)"
  by (simp add: sieved_def)

lemma prime_nat_cases:
  assumes "prime_nat q"
  shows "q = 2 \<or> q = 3 \<or> (odd q \<and> \<not> 3 dvd q \<and> 5 \<le> q)"
proof -
  from assms have q1: "1 < q" and dv: "\<And>d. d dvd q \<Longrightarrow> d = 1 \<or> d = q"
    by (auto simp: prime_nat_def)
  show ?thesis
  proof (cases "q = 2 \<or> q = 3")
    case False
    have "odd q" using dv[of 2] False by auto
    moreover have "\<not> 3 dvd q" using dv[of 3] False by auto
    moreover from this calculation q1 False have "5 \<le> q" by presburger
    ultimately show ?thesis by simp
  qed auto
qed

lemma sieved_final:
  assumes sv: "sieved (isqrt n div 3) sv"
    and len: "length sv = n div 3 + (if n mod 6 = 2 then 1 else 0)"
    and j: "j < length sv"
  shows "sv ! j \<longleftrightarrow> j = 0 \<or> prime_nat (wheel j)"
proof (cases "j = 0")
  case True
  have "\<not> (1 \<le> i \<and> wheel i dvd wheel 0)" for i
    using wheel_ge5[of i] by (auto simp: wheel_0)
  then show ?thesis using sv j True unfolding sieved_def by auto
next
  case False
  then have j1: "1 \<le> j" by simp
  have wj: "wheel j < n" using j unfolding len wheel_range .
  show ?thesis
  proof (cases "prime_nat (wheel j)")
    case True
    then show ?thesis
      using sv j prime_wheel_no_marker[of j] unfolding sieved_def by blast
  next
    case np: False
    from composite_wheel_marker[OF j1 np] obtain i where
      i: "1 \<le> i" "prime_nat (wheel i)" "wheel i dvd wheel j" "wheel i * wheel i \<le> wheel j"
      by blast
    from i(4) wj have "wheel i * wheel i \<le> n" by simp
    then have "wheel i \<le> isqrt n" by (rule isqrt_ge)
    then have "wheel i div 3 \<le> isqrt n div 3" by (rule div_le_mono)
    then have "i \<le> isqrt n div 3" by (simp add: wheel_div3)
    with i have "\<not> sv ! j" using sv j unfolding sieved_def by blast
    with np False show ?thesis by simp
  qed
qed

lemma nonzero_final:
  assumes "\<And>j. j < length sv \<Longrightarrow> sv ! j \<longleftrightarrow> j = 0 \<or> prime_nat (wheel j)"
  shows "tl (nonzero sv) = filter (\<lambda>j. prime_nat (wheel j)) [1..<length sv]"
proof (cases "length sv")
  case 0
  then show ?thesis by (simp add: nonzero_def)
next
  case (Suc m)
  then have upt: "[0..<length sv] = 0 # [1..<length sv]" by (simp add: upt_conv_Cons)
  have "sv ! 0" using assms[of 0] Suc by simp
  then have "nonzero sv = 0 # filter (\<lambda>j. sv ! j) [1..<length sv]"
    unfolding nonzero_def by (subst upt) simp
  moreover have "filter (\<lambda>j. sv ! j) [1..<length sv]
      = filter (\<lambda>j. prime_nat (wheel j)) [1..<length sv]"
    by (rule filter_cong) (use assms in auto)
  ultimately show ?thesis by simp
qed

lemma sieve_index_bound:
  assumes "6 \<le> n"
  shows "isqrt n div 3 = 0 \<or> isqrt n div 3 < n div 3 + (if n mod 6 = 2 then 1 else 0)"
proof (cases "isqrt n div 3 = 0")
  case False
  then have r3: "3 \<le> isqrt n" by presburger
  then have "3 * isqrt n \<le> isqrt n * isqrt n" by (rule mult_le_mono1)
  moreover have "isqrt n * isqrt n \<le> n" using isqrt_bounds[of n] by blast
  ultimately have "3 * isqrt n \<le> n" by (rule order_trans)
  then have "isqrt n \<le> n div 3" by presburger
  moreover have "isqrt n div 3 < isqrt n" using r3 by presburger
  ultimately show ?thesis by simp
qed simp

lemma primes_list_nat:
  assumes "6 \<le> n"
  shows "primes_list (int n) =
    Inr (2 # 3 # map (\<lambda>j. int (wheel j))
      (filter (\<lambda>j. prime_nat (wheel j)) [1..<n div 3 + (if n mod 6 = 2 then 1 else 0)]))"
proof -
  define len where "len = n div 3 + (if n mod 6 = 2 then 1 else 0)"
  have "int n mod 6 = int (n mod 6)" by (simp add: zmod_int)
  then have "(int n mod 6 = 2) = (n mod 6 = 2)" by (metis of_nat_numeral of_nat_eq_iff)
  then have size: "int n div 3 + (if int n mod 6 = 2 then 1 else 0) = int len"
    unfolding len_def by (simp add: zdiv_int)
  from sieve_index_bound[OF assms]
  have "isqrt n div 3 = 0 \<or> 0 + isqrt n div 3 < length (replicate len True)"
    by (simp add: len_def)
  from sieve_loop_inv[OF sieved_init this] obtain sv where
    loop: "sieve_loop [Suc 0..<Suc (isqrt n div 3)] (replicate len True) = Inr sv"
    and l: "length sv = len" and inv: "sieved (isqrt n div 3) sv"
    by auto
  have fin: "sv ! j \<longleftrightarrow> j = 0 \<or> prime_nat (wheel j)" if "j < length sv" for j
    using sieved_final[OF inv _ that] l by (simp add: len_def)
  have "tl (nonzero sv) = filter (\<lambda>j. prime_nat (wheel j)) [1..<len]"
    using nonzero_final[of sv] fin l by simp
  then show ?thesis
    unfolding primes_list_def size Let_def len_def[symmetric]
    using loop by (simp add: wheel_def)
qed

lemma primes_list_sorted:
  "sorted_wrt (<) (2 # 3 # map (\<lambda>j. int (wheel j)) (filter P [1..<len]))"
proof -
  have "sorted_wrt (<) (filter P [1..<len])"
    by (rule sorted_wrt_filter) (rule sorted_wrt_upt)
  then have "sorted_wrt (\<lambda>i j. int (wheel i) < int (wheel j)) (filter P [1..<len])"
    by (rule sorted_wrt_mono_rel[rotated]) (simp add: wheel_mono)
  then have "sorted_wrt (<) (map (\<lambda>j. int (wheel j)) (filter P [1..<len]))"
    by (simp add: sorted_wrt_map)
  moreover have "5 \<le> int (wheel j)" if "j \<in> set (filter P [1..<len])" for j
    using that wheel_ge5[of j] by simp
  ultimately show ?thesis by fastforce
qed

lemma primes_list_set:
  assumes "6 \<le> n"
  shows "set (2 # 3 # map (\<lambda>j. int (wheel j))
      (filter (\<lambda>j. prime_nat (wheel j)) [1..<n div 3 + (if n mod 6 = 2 then 1 else 0)]))
    = {p. prime_int p \<and> p < int n}"
    (is "?L = ?R")
proof (intro set_eqI iffI)
  fix p assume "p \<in> ?L"
  then consider "p = 2" | "p = 3"
    | j where "1 \<le> j" "j < n div 3 + (if n mod 6 = 2 then 1 else 0)" "prime_nat (wheel j)"
        "p = int (wheel j)"
    by auto
  then show "p \<in> ?R"
  proof cases
    case 1
    then show ?thesis using assms prime_nat_2 by (simp add: prime_int_def)
  next
    case 2
    then show ?thesis using assms prime_nat_3 by (simp add: prime_int_def)
  next
    case 3
    from 3(2) have "wheel j < n" unfolding wheel_range .
    moreover have "1 < wheel j" using wheel_ge5[OF 3(1)] by simp
    ultimately show ?thesis using 3(3,4) by (simp add: prime_int_def)
  qed
next
  fix p assume "p \<in> ?R"
  then have p: "1 < p" "prime_nat (nat p)" "p < int n" by (auto simp: prime_int_def)
  from prime_nat_cases[OF p(2)] consider "nat p = 2" | "nat p = 3"
    | "odd (nat p)" "\<not> 3 dvd nat p" "5 \<le> nat p" by blast
  then show "p \<in> ?L"
  proof cases
    case 1
    then have "p = 2" using p(1) by simp
    then show ?thesis by simp
  next
    case 2
    then have "p = 3" using p(1) by simp
    then show ?thesis by simp
  next
    case 3
    define j where "j = nat p div 3"
    have w: "wheel j = nat p" unfolding j_def using 3(1,2) by (rule wheel_inv)
    have "wheel j < n" using w p(3) p(1) by simp
    then have "j < n div 3 + (if n mod 6 = 2 then 1 else 0)" unfolding wheel_range .
    moreover have "1 \<le> j" unfolding j_def using 3(3) by simp
    moreover have "prime_nat (wheel j)" using w p(2) by simp
    moreover have "p = int (wheel j)" using w p(1) by simp
    ultimately have "p \<in> (\<lambda>j. int (wheel j)) `
        set (filter (\<lambda>j. prime_nat (wheel j)) [1..<n div 3 + (if n mod 6 = 2 then 1 else 0)])"
      by (intro image_eqI[of _ _ j]) auto
    then show ?thesis by simp
  qed
qed

lemma primes_list_correct:
  assumes "6 \<le> n"
  shows "\<exists>ps. primes_list n = Inr ps \<and> sorted_wrt (<) ps \<and> set ps = {p. prime_int p \<and> p < n}"
proof -
  have n: "int (nat n) = n" and n6: "6 \<le> nat n" using assms by simp_all
  from primes_list_nat[OF n6] primes_list_sorted primes_list_set[OF n6]
  show ?thesis unfolding n by fastforce
qed

lemma primes_list_30: "primes_list 30 = Inr [2, 3, 5, 7, 11, 13, 17, 19, 23, 29]"
  by code_simp

text \<open>
  C2: for every bound \<open>n \<ge> 6\<close> the sieve returns, without error, the strictly
  increasing list of exactly the primes \<open>p\<close> with \<open>2 \<le> p < n\<close>; for the bound 30
  that is \<open>[2, 3, 5, 7, 11, 13, 17, 19, 23, 29]\<close>.
\<close>

theorem primes_list_sieve:
  assumes "6 \<le> n"
  shows "(\<exists>ps. primes_list n = Inr ps \<and> sorted_wrt (<) ps
            \<and> set ps = {p. prime_int p \<and> p < n})
         \<and> primes_list 30 = Inr [2, 3, 5, 7, 11, 13, 17, 19, 23, 29]"
  using primes_list_correct[OF assms] primes_list_30 by blast

theorem primes_list_sieve_witness:
  "(6::int) \<le> 30
   \<and> (\<exists>ps. primes_list 30 = Inr ps \<and> sorted_wrt (<) ps
          \<and> set ps = {p. prime_int p \<and> p < 30})
   \<and> primes_list 30 = Inr [2, 3, 5, 7, 11, 13, 17, 19, 23, 29]"
proof -
  have h: "(6::int) \<le> 30" by simp
  from primes_list_sieve[OF h] h show ?thesis by blast
qed

subsection \<open>The two loops of the Moebius table, entry by entry\<close>

lemma stride_scale_length [simp]: "length (stride_scale p ml) = length ml"
  by (simp add: stride_scale_def)

lemma stride_zero_length [simp]: "length (stride_zero s ml) = length ml"
  by (simp add: stride_zero_def)

lemma stride_scale_nth:
  "j < length ml \<Longrightarrow> stride_scale p ml ! j = (if p dvd int j then ml ! j * (- p) else ml ! j)"
  by (simp add: stride_scale_def mod_eq_0_iff_dvd)

lemma stride_zero_nth:
  "j < length ml \<Longrightarrow> stride_zero s ml ! j = (if s dvd int j then 0 else ml ! j)"
  by (simp add: stride_zero_def mod_eq_0_iff_dvd)

lemma mobius_sieve_length [simp]: "length (mobius_sieve ps ml) = length ml"
  by (induction ps arbitrary: ml) simp_all

lemma mobius_sieve_nth:
  "j < length ml \<Longrightarrow>
   mobius_sieve ps ml ! j =
     (if \<exists>p\<in>set ps. p * p dvd int j then 0
      else ml ! j * prod_list (map uminus (filter (\<lambda>p. p dvd int j) ps)))"
proof (induction ps arbitrary: ml)
  case Nil
  then show ?case by simp
next
  case (Cons p ps)
  let ?ml = "stride_zero (p * p) (stride_scale p ml)"
  have j: "j < length ?ml" using Cons.prems by simp
  have step: "?ml ! j = (if p * p dvd int j then 0 else if p dvd int j then ml ! j * (- p) else ml ! j)"
    using Cons.prems by (simp add: stride_zero_nth stride_scale_nth)
  show ?case
    unfolding mobius_sieve.simps Cons.IH[OF j] step
    by (auto simp: mult.assoc)
qed

lemma normalize_entry_eq:
  assumes "i < length ml"
  shows "normalize_entry i ml = ml[i := norm_value i (ml ! i)]"
proof (cases "ml ! i = 0")
  case True
  have "norm_value i (ml ! i) = ml ! i" using True by (simp add: norm_value_def)
  then have "ml[i := norm_value i (ml ! i)] = ml" by (simp only: list_update_id)
  moreover have "normalize_entry i ml = ml" using True by (simp add: normalize_entry_def)
  ultimately show ?thesis by simp
next
  case False
  show ?thesis
  proof (cases "\<bar>ml ! i\<bar> < int i")
    case True
    then show ?thesis using False assms
      by (simp add: normalize_entry_def norm_value_def Let_def)
  next
    case nf: False
    then show ?thesis using False assms
      by (simp add: normalize_entry_def norm_value_def Let_def)
  qed
qed

lemma fold_normalize_entry:
  "\<forall>i\<in>set is. i < length ml \<Longrightarrow> distinct is \<Longrightarrow>
   length (fold normalize_entry is ml) = length ml
   \<and> (\<forall>k<length ml. fold normalize_entry is ml ! k
        = (if k \<in> set is then norm_value k (ml ! k) else ml ! k))"
proof (induction "is" arbitrary: ml)
  case Nil
  then show ?case by simp
next
  case (Cons i "is")
  let ?ml = "ml[i := norm_value i (ml ! i)]"
  have i: "i < length ml" using Cons.prems(1) by simp
  have eq: "normalize_entry i ml = ?ml" using i by (rule normalize_entry_eq)
  have "\<forall>i\<in>set is. i < length ?ml" using Cons.prems(1) by simp
  moreover have "distinct is" using Cons.prems(2) by simp
  ultimately have IH: "length (fold normalize_entry is ?ml) = length ?ml"
    "\<And>k. k < length ?ml \<Longrightarrow> fold normalize_entry is ?ml ! k
        = (if k \<in> set is then norm_value k (?ml ! k) else ?ml ! k)"
    using Cons.IH[of ?ml] by auto
  have ni: "i \<notin> set is" using Cons.prems(2) by simp
  show ?case
  proof (intro conjI allI impI)
    show "length (fold normalize_entry (i # is) ml) = length ml"
      using IH(1) by (simp add: eq)
    fix k assume k: "k < length ml"
    then have "fold normalize_entry (i # is) ml ! k
        = (if k \<in> set is then norm_value k (?ml ! k) else ?ml ! k)"
      using IH(2)[of k] by (simp add: eq)
    also have "\<dots> = (if k \<in> set (i # is) then norm_value k (ml ! k) else ml ! k)"
    proof (cases "k = i")
      case True
      then show ?thesis using ni k by simp
    next
      case False
      then show ?thesis by simp
    qed
    finally show "fold normalize_entry (i # is) ml ! k
        = (if k \<in> set (i # is) then norm_value k (ml ! k) else ml ! k)" .
  qed
qed

subsection \<open>Products of distinct primes\<close>

lemma prime_nat_dvd_prime:
  assumes "prime_nat p" and "prime_nat q" and "p dvd q"
  shows "p = q"
  using assms by (auto simp: prime_nat_def)

lemma prime_dvd_prod_list:
  "prime_nat q \<Longrightarrow> \<forall>p\<in>set ps. prime_nat p \<Longrightarrow> q dvd prod_list ps \<Longrightarrow> q \<in> set ps"
proof (induction ps)
  case Nil
  then show ?case by (simp add: prime_nat_def)
next
  case (Cons p ps)
  from Cons.prems(3) have "q dvd p * prod_list ps" by simp
  from prime_nat_dvd_mult[OF Cons.prems(1) this] show ?case
  proof
    assume "q dvd p"
    then have "q = p" using Cons.prems(1,2) by (intro prime_nat_dvd_prime) auto
    then show ?thesis by simp
  next
    assume "q dvd prod_list ps"
    then show ?thesis using Cons by simp
  qed
qed

lemma member_dvd_prod_list: "(x::nat) \<in> set xs \<Longrightarrow> x dvd prod_list xs"
  by (induction xs) auto

lemma primes_prod_dvd:
  "distinct ps \<Longrightarrow> \<forall>p\<in>set ps. prime_nat p \<and> p dvd k \<Longrightarrow> prod_list ps dvd k"
proof (induction ps)
  case Nil
  then show ?case by simp
next
  case (Cons p ps)
  have p: "prime_nat p" "p dvd k" using Cons.prems(2) by auto
  have IH: "prod_list ps dvd k" using Cons by simp
  have "\<not> p dvd prod_list ps"
  proof
    assume "p dvd prod_list ps"
    then have "p \<in> set ps" using p(1) Cons.prems(2) by (intro prime_dvd_prod_list) auto
    with Cons.prems(1) show False by simp
  qed
  then have "coprime p (prod_list ps)" using p(1) by (intro prime_nat_coprime)
  with p(2) IH have "p * prod_list ps dvd k" by (intro divides_mult)
  then show ?case by simp
qed

lemma prime_factor_exists:
  assumes "2 \<le> m"
  shows "\<exists>q. prime_nat q \<and> q dvd m"
proof (cases "prime_nat m")
  case True
  then show ?thesis by auto
next
  case False
  from prime_factor_le_sqrt[OF assms this] show ?thesis by blast
qed

lemma prod_list_primes_pos:
  "\<forall>p\<in>set ps. prime_nat p \<Longrightarrow> 0 < prod_list ps"
  by (induction ps) (auto simp: prime_nat_def)

lemma signed_prod:
  "prod_list (map uminus (map int ps)) = (- 1) ^ length ps * int (prod_list ps)"
  by (induction ps) simp_all

lemma filter_dvd_int:
  "filter (\<lambda>p. p dvd int k) (map int qs) = map int (filter (\<lambda>q. q dvd k) qs)"
  by (induction qs) simp_all

end
